theory Spec2Isabelle
  imports Complex_Main
begin

section \<open>Overview\<close>

text \<open>
  A shallow embedding of the audio preparation and of the transcript filtering of a
  voice-memo transcription client. The sources hold three versions of the browser
  application:
  \<^item> src/main.js, which sends the waveform to a local worker;
  \<^item> the second program of src/api/transcribe.js, a later version of the same
    ("the local-worker application"), with the filter \<^verbatim>\<open>cleanText\<close>;
  \<^item> the third program of src/api/transcribe.js, which calls a remote API
    ("the Groq application"), with the filter \<^verbatim>\<open>filterHallucinations\<close>.

  A function keeps its source name. Where versions differ, the local-worker application
  has the plain name, the version of src/main.js the suffix \<open>_main\<close> and the version of
  the Groq application the suffix \<open>_groq\<close>. Three source names are not available here:
  the \<^verbatim>\<open>id\<close> fields are \<open>kid\<close> (keyword) and \<open>tid\<close> (transcription),
  \<^verbatim>\<open>state.keywords\<close> is \<open>stateKeywords\<close>, and \<^verbatim>\<open>String.prototype.includes\<close> is
  \<open>str_includes\<close>.
\<close>

section \<open>Audio: waveforms, normalisation, RMS and resampling\<close>

subsection \<open>Double and single precision\<close>

text \<open>
  JavaScript numbers are IEEE 754 doubles and the elements of a \<^verbatim>\<open>Float32Array\<close> are
  singles: an arithmetic operation returns the exact result rounded to the nearest
  double, ties to even, and a store into a \<^verbatim>\<open>Float32Array\<close> rounds to the nearest single.

  \<open>roundTo p emin x\<close> is \<open>x\<close> rounded to \<open>p\<close> significant bits, \<open>emin\<close> being the exponent
  of the least normal number: around \<open>x\<close> the representable numbers are the multiples of
  \<open>2 ^ (e - p + 1)\<close>, where \<open>e\<close> is the binade of \<open>x\<close> (\<open>2 ^ e \<le> |x| < 2 ^ (e + 1)\<close>), or
  \<open>emin\<close> for the subnormal numbers below \<open>2 ^ emin\<close>. Overflow to \<^verbatim>\<open>Infinity\<close> and NaN
  are not modelled.

  The lengths, the indices and the interpolation of the resampling, the scaling of
  \<^verbatim>\<open>normalizeAudio\<close> and the sum, the mean and the square root of \<^verbatim>\<open>calculateRMS\<close> are
  rounded as the source computes them. The mean of the two channels in the downmix is
  kept exact.
\<close>

definition roundEven :: "real \<Rightarrow> int" where
  "roundEven x =
     (let f = \<lfloor>x\<rfloor>; d = x - real_of_int f in
      if d < 1/2 then f else if 1/2 < d then f + 1 else if even f then f else f + 1)"

definition binade :: "real \<Rightarrow> int" where
  "binade x = \<lfloor>log 2 \<bar>x\<bar>\<rfloor>"

definition roundTo :: "nat \<Rightarrow> int \<Rightarrow> real \<Rightarrow> real" where
  "roundTo p emin x =
     (if x = 0 then 0
      else (let q = 2 powr real_of_int (max (binade x) emin - int p + 1)
            in q * real_of_int (roundEven (x / q))))"

definition fl64 :: "real \<Rightarrow> real" where
  "fl64 = roundTo 53 (- 1022)"

definition fl32 :: "real \<Rightarrow> real" where
  "fl32 = roundTo 24 (- 126)"

subsection \<open>Audio buffers\<close>

text \<open>
  A \<^verbatim>\<open>Float32Array\<close> of samples is a list of reals. An \<^verbatim>\<open>AudioBuffer\<close> carries its
  sample rate and one sample array per channel; its \<^verbatim>\<open>length\<close> is the number of frames
  and its \<^verbatim>\<open>duration\<close> is the double \<^verbatim>\<open>length / sampleRate\<close>.
\<close>

type_synonym waveform = "real list"

record audioBuffer =
  sampleRate :: nat
  channels :: "waveform list"

definition numberOfChannels :: "audioBuffer \<Rightarrow> nat" where
  "numberOfChannels b = length (channels b)"

definition frames :: "audioBuffer \<Rightarrow> nat" where
  "frames b = (case channels b of [] \<Rightarrow> 0 | c # _ \<Rightarrow> length c)"

definition duration :: "audioBuffer \<Rightarrow> real" where
  "duration b = fl64 (real (frames b) / real (sampleRate b))"

text \<open>
  \<^verbatim>\<open>getChannelData(c)\<close> throws for a channel index out of range; \<open>None\<close> is that
  exception.
\<close>

definition getChannelData :: "audioBuffer \<Rightarrow> nat \<Rightarrow> waveform option" where
  "getChannelData b c = (if c < numberOfChannels b then Some (channels b ! c) else None)"

text \<open>
  What the platform guarantees of a decoded buffer: a positive sample rate, at least one
  channel, all channels of the same number of frames.
\<close>

definition wf_buffer :: "audioBuffer \<Rightarrow> bool" where
  "wf_buffer b \<longleftrightarrow>
     0 < sampleRate b \<and> channels b \<noteq> [] \<and> (\<forall>c \<in> set (channels b). length c = frames b)"

definition TARGET_SAMPLE_RATE :: nat where
  "TARGET_SAMPLE_RATE = 16000"

subsection \<open>\<^verbatim>\<open>normalizeAudio\<close>\<close>

text \<open>
  The loop of \<^verbatim>\<open>normalizeAudio\<close> (src/api/transcribe.js):
  \<^verbatim>\<open>let maxAmp = 0; for (...) { const abs = Math.abs(audioData[i]); if (abs > maxAmp) maxAmp = abs; }\<close>
\<close>

definition maxAmpStep :: "real \<Rightarrow> real \<Rightarrow> real" where
  "maxAmpStep m x = (if \<bar>x\<bar> > m then \<bar>x\<bar> else m)"

definition maxAmp :: "waveform \<Rightarrow> real" where
  "maxAmp audioData = foldl maxAmpStep 0 audioData"

text \<open>
  The peak is compared with the doubles \<^verbatim>\<open>0.1\<close> and \<^verbatim>\<open>0.001\<close>;
  \<^verbatim>\<open>scale = 0.95 / maxAmp\<close> is the double quotient of the double \<^verbatim>\<open>0.95\<close>, and
  \<^verbatim>\<open>normalized[i] = audioData[i] * scale\<close> stores the double product as a single.
\<close>

definition normalizeAudio :: "waveform \<Rightarrow> waveform" where
  "normalizeAudio audioData =
     (let m = maxAmp audioData in
      if m \<le> 1 \<and> m \<ge> fl64 (1/10) then audioData
      else if m < fl64 (1/1000) then audioData
      else (let scale = fl64 (fl64 (95/100) / m)
            in map (\<lambda>x. fl32 (fl64 (x * scale))) audioData))"

text \<open>
  src/main.js computes the peak as \<^verbatim>\<open>Math.max(...audioData.map(Math.abs))\<close>. The spread
  passes every sample as an argument of one call, and the engine throws a
  \<^verbatim>\<open>RangeError\<close> when there are more of them than it accepts: \<open>argLimit\<close> is that bound,
  a parameter of the engine, and \<open>None\<close> is the exception. On an empty array
  \<^verbatim>\<open>Math.max()\<close> is \<^verbatim>\<open>-Infinity\<close>: then the first test fails and the second
  (\<^verbatim>\<open>maxAmplitude < 0.001\<close>) succeeds, and the array is returned as it is.
\<close>

datatype amplitude = NegInfinity | Amplitude real

definition maxAmplitude :: "nat \<Rightarrow> waveform \<Rightarrow> amplitude option" where
  "maxAmplitude argLimit audioData =
     (if argLimit < length audioData then None
      else (case map abs audioData of
              [] \<Rightarrow> Some NegInfinity
            | a # as \<Rightarrow> Some (Amplitude (foldl max a as))))"

definition normalizeAudio_main :: "nat \<Rightarrow> waveform \<Rightarrow> waveform option" where
  "normalizeAudio_main argLimit audioData =
     (case maxAmplitude argLimit audioData of
        None \<Rightarrow> None
      | Some NegInfinity \<Rightarrow> Some audioData
      | Some (Amplitude m) \<Rightarrow>
          if m \<le> 1 \<and> m \<ge> fl64 (1/10) then Some audioData
          else if m < fl64 (1/1000) then Some audioData
          else (let scale = fl64 (fl64 (95/100) / m)
                in Some (map (\<lambda>x. fl32 (fl64 (x * scale))) audioData)))"

subsection \<open>\<^verbatim>\<open>calculateRMS\<close>\<close>



subsection \<open>\<^verbatim>\<open>resampleManually\<close>: downmix, then linear interpolation\<close>

text \<open>
  Step 1 of \<^verbatim>\<open>resampleManually\<close>: one channel is copied; otherwise channels 0 and 1
  are read and averaged, whatever \<^verbatim>\<open>numberOfChannels\<close> is.
\<close>

definition monoData :: "audioBuffer \<Rightarrow> waveform option" where
  "monoData b =
     (if numberOfChannels b = 1 then getChannelData b 0
      else (case (getChannelData b 0, getChannelData b 1) of
              (Some ch0, Some ch1) \<Rightarrow>
                 Some (map (\<lambda>i. (ch0 ! i + ch1 ! i) / 2) [0..<length ch0])
            | _ \<Rightarrow> None))"

text \<open>
  Step 3: the interpolated sample at output index \<open>i\<close>. \<^verbatim>\<open>srcIndex = i * ratio\<close> is a
  double product, and
  \<^verbatim>\<open>result[i] = monoData[srcFloor] * (1 - fraction) + monoData[srcCeil] * fraction\<close>
  stores a double sum of two double products as a single.
\<close>

definition interpolate :: "waveform \<Rightarrow> real \<Rightarrow> nat \<Rightarrow> real" where
  "interpolate md ratio i =
     (let srcIndex = fl64 (real i * ratio);
          srcFloor = nat \<lfloor>srcIndex\<rfloor>;
          srcCeil = min (srcFloor + 1) (length md - 1);
          fraction = fl64 (srcIndex - real srcFloor)
      in fl32 (fl64 (fl64 (md ! srcFloor * fl64 (1 - fraction))
                       + fl64 (md ! srcCeil * fraction))))"

text \<open>
  \<^verbatim>\<open>ratio = sourceSampleRate / targetSampleRate\<close> and
  \<^verbatim>\<open>newLength = Math.floor(monoData.length / ratio)\<close>: two double quotients, and the
  floor of the second.
\<close>

definition resampleManually :: "audioBuffer \<Rightarrow> nat \<Rightarrow> waveform option" where
  "resampleManually b targetSampleRate =
     (case monoData b of
        None \<Rightarrow> None
      | Some md \<Rightarrow>
          if sampleRate b = targetSampleRate then Some md
          else
            (let ratio = fl64 (real (sampleRate b) / real targetSampleRate);
                 newLength = nat \<lfloor>fl64 (real (length md) / ratio)\<rfloor>
             in Some (map (interpolate md ratio) [0..<newLength])))"

text \<open>
  The high-quality path (\<^verbatim>\<open>resampleWithOfflineContext\<close>, \<^verbatim>\<open>resampleTo16kHzMono\<close>) asks
  the platform for an offline rendering of
  \<^verbatim>\<open>targetLength = Math.round(sourceDuration * TARGET_SAMPLE_RATE)\<close> frames of one channel:
  the double product of the double duration, rounded to the nearest integer;
  \<^verbatim>\<open>Math.round\<close> rounds half up, as \<^const>\<open>round\<close> does.
\<close>

definition targetLength :: "audioBuffer \<Rightarrow> int" where
  "targetLength b = round (fl64 (duration b * real TARGET_SAMPLE_RATE))"

section \<open>JavaScript strings\<close>

text \<open>
  A JavaScript string is a sequence of UTF-16 code units; \<^verbatim>\<open>length\<close>, indexing and the
  regular expressions of this program (none has the \<^verbatim>\<open>u\<close> flag) all work on code units.
  Every character the filters name lies in the Basic Multilingual Plane and is one unit.
\<close>

type_synonym jsstring = "nat list"

definition ascii :: "string \<Rightarrow> jsstring" where
  "ascii s = map of_char s"

text \<open>\<^verbatim>\<open>\s\<close> of a regular expression, and what \<^verbatim>\<open>trim()\<close> strips: WhiteSpace and LineTerminator.\<close>

definition isLineTerminator :: "nat \<Rightarrow> bool" where
  "isLineTerminator c \<longleftrightarrow> c = 0x000A \<or> c = 0x000D \<or> c = 0x2028 \<or> c = 0x2029"

definition isWhiteSpace :: "nat \<Rightarrow> bool" where
  "isWhiteSpace c \<longleftrightarrow>
     c = 0x0009 \<or> c = 0x000B \<or> c = 0x000C \<or> c = 0x0020 \<or> c = 0x00A0 \<or> c = 0x1680
     \<or> (0x2000 \<le> c \<and> c \<le> 0x200A) \<or> c = 0x202F \<or> c = 0x205F \<or> c = 0x3000 \<or> c = 0xFEFF
     \<or> isLineTerminator c"

definition isDigit :: "nat \<Rightarrow> bool" where
  "isDigit c \<longleftrightarrow> 0x0030 \<le> c \<and> c \<le> 0x0039"

definition trim :: "jsstring \<Rightarrow> jsstring" where
  "trim s = rev (dropWhile isWhiteSpace (rev (dropWhile isWhiteSpace s)))"

definition startsWith :: "jsstring \<Rightarrow> jsstring \<Rightarrow> bool" where
  "startsWith s w \<longleftrightarrow> take (length w) s = w"

fun str_includes :: "jsstring \<Rightarrow> jsstring \<Rightarrow> bool" where
  "str_includes [] w = (w = [])"
| "str_includes (c # cs) w = (startsWith (c # cs) w \<or> str_includes cs w)"

text \<open>
  \<^verbatim>\<open>s.split(/[...]/)\<close> for a separator that is one character of a class: the pieces
  between separators, empty pieces included; \<open>piece\<close> collects the current one.
\<close>

fun splitOn :: "(nat \<Rightarrow> bool) \<Rightarrow> jsstring \<Rightarrow> jsstring \<Rightarrow> jsstring list" where
  "splitOn sep piece [] = [piece]"
| "splitOn sep piece (c # cs) =
     (if sep c then piece # splitOn sep [] cs else splitOn sep (piece @ [c]) cs)"

fun join :: "jsstring \<Rightarrow> jsstring list \<Rightarrow> jsstring" where
  "join sep [] = []"
| "join sep [x] = x"
| "join sep (x # y # ys) = x @ sep @ join sep (y # ys)"

text \<open>
  \<^verbatim>\<open>s.replace(/[class]{n,}/g, rep)\<close>: the quantifier is greedy, so a match is a maximal
  run of class characters, replaced when it has at least \<open>n\<close> characters; \<open>run\<close> is the run
  read so far.
\<close>

definition flushRun :: "nat \<Rightarrow> jsstring \<Rightarrow> jsstring \<Rightarrow> jsstring" where
  "flushRun n rep run = (if n \<le> length run then rep else run)"

fun replaceRuns :: "(nat \<Rightarrow> bool) \<Rightarrow> nat \<Rightarrow> jsstring \<Rightarrow> jsstring \<Rightarrow> jsstring \<Rightarrow> jsstring" where
  "replaceRuns cls n rep run [] = flushRun n rep run"
| "replaceRuns cls n rep run (c # cs) =
     (if cls c then replaceRuns cls n rep (run @ [c]) cs
      else flushRun n rep run @ c # replaceRuns cls n rep [] cs)"

section \<open>The repetition patterns\<close>

text \<open>
  \<^verbatim>\<open>\1{2,}\<close> after a group that matched \<open>w\<close>: the number of consecutive copies of \<open>w\<close> at
  the start of \<open>s\<close> (greedy). For a non-empty \<open>w\<close> the recursive call is on
  \<^verbatim>\<open>drop (length w) (c # cs)\<close>.
\<close>

fun countCopies :: "jsstring \<Rightarrow> jsstring \<Rightarrow> nat" where
  "countCopies w [] = 0"
| "countCopies w (c # cs) =
     (if w \<noteq> [] \<and> startsWith (c # cs) w then Suc (countCopies w (drop (length w - 1) cs)) else 0)"

text \<open>
  \<^verbatim>\<open>/(.{lo,hi})\1{2,}/\<close> tried at the start of \<open>s\<close>. The dot matches any unit but a line
  terminator. The group is greedy: the matcher tries the longest group first (at most
  \<open>hi\<close> units, inside the run of non-terminators) and backtracks to shorter ones until two
  further copies follow; then \<^verbatim>\<open>\1{2,}\<close> takes every further copy. The result is the
  group's length and the length of the whole match.
\<close>

definition loopAt :: "nat \<Rightarrow> nat \<Rightarrow> jsstring \<Rightarrow> (nat \<times> nat) option" where
  "loopAt lo hi s =
     (let d = length (takeWhile (\<lambda>c. \<not> isLineTerminator c) s) in
      case find (\<lambda>k. 2 \<le> countCopies (take k s) (drop k s)) (rev [lo..<Suc (min hi d)]) of
        None \<Rightarrow> None
      | Some k \<Rightarrow> Some (k, k * (1 + countCopies (take k s) (drop k s))))"

text \<open>
  The first match of the pattern in the text (\<^verbatim>\<open>test\<close>, \<^verbatim>\<open>match\<close>): the leftmost
  position where it matches; the result is the position, the group's length and the
  match's length.
\<close>

fun loopSearch :: "nat \<Rightarrow> nat \<Rightarrow> jsstring \<Rightarrow> (nat \<times> nat \<times> nat) option" where
  "loopSearch lo hi [] = None"
| "loopSearch lo hi (c # cs) =
     (case loopAt lo hi (c # cs) of
        Some (k, l) \<Rightarrow> Some (0, k, l)
      | None \<Rightarrow> (case loopSearch lo hi cs of
                   None \<Rightarrow> None
                 | Some (p, k, l) \<Rightarrow> Some (Suc p, k, l)))"

text \<open>
  \<^verbatim>\<open>s.replace(/(.{lo,hi})\1{2,}/g, '$1')\<close>: every match, found from left to right and
  not overlapping, is replaced by its group. A match has \<open>l \<ge> 1\<close> units, and the scan
  goes on at \<^verbatim>\<open>drop l (c # cs)\<close>.
\<close>

fun loopSquash :: "nat \<Rightarrow> nat \<Rightarrow> jsstring \<Rightarrow> jsstring" where
  "loopSquash lo hi [] = []"
| "loopSquash lo hi (c # cs) =
     (case loopAt lo hi (c # cs) of
        None \<Rightarrow> c # loopSquash lo hi cs
      | Some (k, l) \<Rightarrow> take k (c # cs) @ loopSquash lo hi (drop (l - 1) cs))"

text \<open>
  \<^verbatim>\<open>/(\S+)[\s\u3001]+\1([\s\u3001]+\1)+/g\<close>. One \<^verbatim>\<open>[\s\u3001]+\1\<close> at the start of \<open>s\<close>: the
  separator run is greedy and backtracks until the word follows; the result is the number
  of units consumed.
\<close>

definition isWordSep :: "nat \<Rightarrow> bool" where
  "isWordSep c \<longleftrightarrow> isWhiteSpace c \<or> c = 0x3001"

definition sepWord :: "jsstring \<Rightarrow> jsstring \<Rightarrow> nat option" where
  "sepWord w s =
     (case find (\<lambda>j. startsWith (drop j s) w) (rev [1..<Suc (length (takeWhile isWordSep s))]) of
        None \<Rightarrow> None
      | Some j \<Rightarrow> Some (j + length w))"

text \<open>\<^verbatim>\<open>([\s\u3001]+\1)*\<close>, greedy: the units consumed by as many iterations as match.\<close>

fun sepWords :: "jsstring \<Rightarrow> jsstring \<Rightarrow> nat" where
  "sepWords w [] = 0"
| "sepWords w (c # cs) =
     (case sepWord w (c # cs) of
        None \<Rightarrow> 0
      | Some n \<Rightarrow> n + sepWords w (drop (n - 1) cs))"

text \<open>
  After the group matched \<open>w\<close>: the first separator run (longest first) after which the
  word follows and at least one more \<^verbatim>\<open>[\s\u3001]+\1\<close> matches; the result is the number of
  units after the group that the match covers.
\<close>

definition wordTail :: "jsstring \<Rightarrow> jsstring \<Rightarrow> nat option" where
  "wordTail w s =
     (case find (\<lambda>j. startsWith (drop j s) w \<and> sepWord w (drop (j + length w) s) \<noteq> None)
                (rev [1..<Suc (length (takeWhile isWordSep s))]) of
        None \<Rightarrow> None
      | Some j \<Rightarrow> Some (j + length w + sepWords w (drop (j + length w) s)))"

text \<open>
  The whole pattern at the start of \<open>s\<close>: the group \<^verbatim>\<open>(\S+)\<close> is greedy, longest first
  inside the run of non-space units, backtracking to shorter words. The result is the
  group's length and the match's length.
\<close>

definition wordLoopAt :: "jsstring \<Rightarrow> (nat \<times> nat) option" where
  "wordLoopAt s =
     (let d = length (takeWhile (\<lambda>c. \<not> isWhiteSpace c) s) in
      case find (\<lambda>k. wordTail (take k s) (drop k s) \<noteq> None) (rev [1..<Suc d]) of
        None \<Rightarrow> None
      | Some k \<Rightarrow> (case wordTail (take k s) (drop k s) of
                     None \<Rightarrow> None
                   | Some n \<Rightarrow> Some (k, k + n)))"

fun wordLoopSquash :: "jsstring \<Rightarrow> jsstring" where
  "wordLoopSquash [] = []"
| "wordLoopSquash (c # cs) =
     (case wordLoopAt (c # cs) of
        None \<Rightarrow> c # wordLoopSquash cs
      | Some (k, l) \<Rightarrow> take k (c # cs) @ wordLoopSquash (drop (l - 1) cs))"

section \<open>The hallucination filter \<^verbatim>\<open>cleanText\<close> (src/api/transcribe.js, local-worker application)\<close>

subsection \<open>Stage 1: \<^verbatim>\<open>hasRepetitionLoop\<close>\<close>

text \<open>
  \<^verbatim>\<open>wordCounts\<close> is an ordinary object: a word that names a property of
  \<^verbatim>\<open>Object.prototype\<close> reads that property instead of \<^verbatim>\<open>undefined\<close>, its "count" becomes
  a string (or, for \<^verbatim>\<open>__proto__\<close>, is never stored), and \<^verbatim>\<open>count >= 3\<close> is false for it.
\<close>

definition protoNames :: "jsstring list" where
  "protoNames = map ascii
     [''constructor'', ''hasOwnProperty'', ''isPrototypeOf'', ''propertyIsEnumerable'',
      ''toLocaleString'', ''toString'', ''valueOf'', ''__proto__'',
      ''__defineGetter__'', ''__defineSetter__'', ''__lookupGetter__'', ''__lookupSetter__'']"

text \<open>
  \<^verbatim>\<open>text.split(/[\u3001\u3002\s]+/).filter(w => w.length > 0)\<close>: splitting at runs of separators
  and splitting at single separators differ only in empty pieces, which the filter drops.
\<close>

definition isLoopSep :: "nat \<Rightarrow> bool" where
  "isLoopSep c \<longleftrightarrow> c = 0x3001 \<or> c = 0x3002 \<or> isWhiteSpace c"

definition loopWords :: "jsstring \<Rightarrow> jsstring list" where
  "loopWords s = filter (\<lambda>w. w \<noteq> []) (splitOn isLoopSep [] s)"

text \<open>
  \<^verbatim>\<open>count >= 3 && count / words.length >= 0.7\<close> for some counted word; the count of a
  word is the number of its occurrences.
\<close>

definition wordLoop :: "jsstring \<Rightarrow> bool" where
  "wordLoop s =
     (let ws = loopWords s in
      3 \<le> length ws \<and>
      list_ex (\<lambda>w. w \<notin> set protoNames \<and> 3 \<le> count_list ws w
                    \<and> 7 * length ws \<le> 10 * count_list ws w) ws)"

text \<open>
  \<^verbatim>\<open>match[0].length > text.length * 0.5\<close> is \<open>length s < 2 * l\<close> for the first match of
  \<^verbatim>\<open>/(.{3,20})\1{2,}/\<close>.
\<close>

definition phraseLoop :: "jsstring \<Rightarrow> bool" where
  "phraseLoop s = (case loopSearch 3 20 s of None \<Rightarrow> False | Some (p, k, l) \<Rightarrow> length s < 2 * l)"

definition hasRepetitionLoop :: "jsstring \<Rightarrow> bool" where
  "hasRepetitionLoop s =
     (if s = [] \<or> length s < 6 then False
      else if phraseLoop s then True
      else wordLoop s)"

subsection \<open>Stage 2: runs of digits, dots, punctuation and spaces\<close>

definition collapseNoise :: "jsstring \<Rightarrow> jsstring" where
  "collapseNoise s =
     (let c1 = replaceRuns (\<lambda>c. isDigit c \<or> c = 0x002E) 4 [] [] s;
          c2 = replaceRuns (\<lambda>c. c = 0x002E) 2 [] [] c1;
          c3 = replaceRuns (\<lambda>c. c = 0x3002) 2 [0x3002] [] c2;
          c4 = replaceRuns (\<lambda>c. c = 0x3001) 2 [0x3001] [] c3;
          c5 = replaceRuns (\<lambda>c. c = 0x2026) 2 [0x2026] [] c4
      in replaceRuns isWhiteSpace 2 [0x0020] [] c5)"

subsection \<open>Stage 3: the blacklist\<close>

definition blacklistWords :: "jsstring list" where
  "blacklistWords =
     [[0x3054, 0x8996, 0x8074, 0x3042, 0x308A, 0x304C, 0x3068, 0x3046, 0x3054, 0x3056, 0x3044, 0x307E, 0x3057, 0x305F],
      [0x8996, 0x8074, 0x3042, 0x308A, 0x304C, 0x3068, 0x3046, 0x3054, 0x3056, 0x3044, 0x307E, 0x3057, 0x305F],
      [0x3042, 0x308A, 0x304C, 0x3068, 0x3046, 0x3054, 0x3056, 0x3044, 0x307E, 0x3057, 0x305F],
      [0x304A, 0x75B2, 0x308C, 0x69D8, 0x3067, 0x3057, 0x305F],
      [0x304A, 0x75B2, 0x308C, 0x3055, 0x307E, 0x3067, 0x3057, 0x305F],
      [0x30C1, 0x30E3, 0x30F3, 0x30CD, 0x30EB, 0x767B, 0x9332],
      [0x9AD8, 0x8A55, 0x4FA1],
      [0x3044, 0x3044, 0x306D],
      [0x5B57, 0x5E55],
      [0x30B5, 0x30D6, 0x30BF, 0x30A4, 0x30C8, 0x30EB],
      [0x7FFB, 0x8A33],
      ascii ''Translated by'',
      ascii ''Subtitles by'',
      ascii ''Transcribed by'',
      ascii ''Amara.org'']"

definition isSentenceEnd :: "nat \<Rightarrow> bool" where
  "isSentenceEnd c \<longleftrightarrow>
     c = 0x3002 \<or> c = 0x002E \<or> c = 0x0021 \<or> c = 0x003F \<or> c = 0xFF01 \<or> c = 0xFF1F"

text \<open>\<^verbatim>\<open>.replace(/^\u3002+|\u3002+$/g, '')\<close>: the leading and the trailing run of \<^verbatim>\<open>\u3002\<close> go.\<close>

definition stripMaru :: "jsstring \<Rightarrow> jsstring" where
  "stripMaru s = rev (dropWhile (\<lambda>c. c = 0x3002) (rev (dropWhile (\<lambda>c. c = 0x3002) s)))"

text \<open>The body of the loop over the blacklist, for one word.\<close>

definition dropSentences :: "jsstring \<Rightarrow> jsstring \<Rightarrow> jsstring" where
  "dropSentences cleaned w =
     (if str_includes cleaned w
      then stripMaru (join [0x3002]
             (filter (\<lambda>s. \<not> str_includes s w) (splitOn isSentenceEnd [] cleaned)))
      else cleaned)"

text \<open>
  Case-insensitive matching (flag \<^verbatim>\<open>i\<close>, no flag \<^verbatim>\<open>u\<close>) compares canonicalised code
  units. Against a pattern unit that is ASCII, kana or kanji (every unit of the blacklist)
  a text unit matches exactly when the two are equal or are the two cases of one ASCII
  letter: no other unit has an ASCII or a Japanese upper case.
\<close>

definition canonicalize :: "nat \<Rightarrow> nat" where
  "canonicalize c = (if 0x0061 \<le> c \<and> c \<le> 0x007A then c - 0x0020 else c)"

text \<open>
  \<^verbatim>\<open>^[\s]*(?:w1|w2|...)[\u3002\u3001\.\s]*$\<close> with flag \<^verbatim>\<open>i\<close>. No blacklisted word starts with
  white space, so the word starts right after the leading white space.
\<close>

definition isTrailer :: "nat \<Rightarrow> bool" where
  "isTrailer c \<longleftrightarrow> c = 0x3002 \<or> c = 0x3001 \<or> c = 0x002E \<or> isWhiteSpace c"

definition blacklistOnly :: "jsstring \<Rightarrow> bool" where
  "blacklistOnly s =
     (let t = dropWhile isWhiteSpace s in
      list_ex (\<lambda>w. map canonicalize (take (length w) t) = map canonicalize w
                    \<and> list_all isTrailer (drop (length w) t)) blacklistWords)"

subsection \<open>Stage 5: short noise\<close>

definition isKana :: "nat \<Rightarrow> bool" where
  "isKana c \<longleftrightarrow> (0x3042 \<le> c \<and> c \<le> 0x3093) \<or> (0x30A2 \<le> c \<and> c \<le> 0x30F3)"

text \<open>
  The nine \<^verbatim>\<open>noisePatterns\<close>, in the source's order; each is anchored at both ends
  (\<^verbatim>\<open>$\<close> without flag \<^verbatim>\<open>m\<close> is the end of the text).
\<close>

definition noisePatterns :: "(jsstring \<Rightarrow> bool) list" where
  "noisePatterns =
     [\<lambda>s. (length s = 1 \<or> length s = 2) \<and> list_all isKana s,
      \<lambda>s. (case s of [] \<Rightarrow> False
            | c # cs \<Rightarrow> c \<in> {0x3048, 0x3042, 0x3046, 0x304A} \<and> list_all (\<lambda>d. d = 0x30FC \<or> d = 0x3063) cs),
      \<lambda>s. (case s of [] \<Rightarrow> False
            | c # cs \<Rightarrow> c = 0x306F \<and> list_all (\<lambda>d. d = 0x3044 \<or> d = 0x3043) cs),
      \<lambda>s. (case s of [] \<Rightarrow> False | c # cs \<Rightarrow> c = 0x3046 \<and> list_all (\<lambda>d. d = 0x3093) cs),
      \<lambda>s. s = [0x305D, 0x3046],
      \<lambda>s. (case s of [] \<Rightarrow> False | c # cs \<Rightarrow> c = 0x306D \<and> list_all (\<lambda>d. d = 0x3047) cs),
      \<lambda>s. s \<noteq> [] \<and> list_all (\<lambda>c. c = 0x7B11 \<or> c = 0x6CE3 \<or> c = 0x6C57) s,
      \<lambda>s. (case s of [] \<Rightarrow> False
            | c # cs \<Rightarrow> c = 0x0028 \<and> cs \<noteq> [] \<and> last cs = 0x0029
                        \<and> list_all (\<lambda>d. d \<noteq> 0x0029) (butlast cs)),
      \<lambda>s. s \<noteq> [] \<and> list_all (\<lambda>c. isWhiteSpace c \<or> c = 0x3002 \<or> c = 0x3001 \<or> c = 0x002E \<or> c = 0x2026) s]"

subsection \<open>Stage 6: final clean-up\<close>

definition isLeadingJunk :: "nat \<Rightarrow> bool" where
  "isLeadingJunk c \<longleftrightarrow> c = 0x3001 \<or> c = 0x3002 \<or> c = 0x002E \<or> c = 0x2026 \<or> isWhiteSpace c"

definition finalCleanup :: "jsstring \<Rightarrow> jsstring" where
  "finalCleanup s =
     (let c1 = trim s;
          c2 = dropWhile isLeadingJunk c1
      in rev (dropWhile isWordSep (rev c2)))"

subsection \<open>\<^verbatim>\<open>cleanText\<close>\<close>

definition cleanText :: "jsstring \<Rightarrow> jsstring" where
  "cleanText s =
     (if s = [] then []
      else if hasRepetitionLoop s then []
      else
        (let c2 = collapseNoise s;
             c3 = foldl dropSentences c2 blacklistWords
         in if blacklistOnly c3 then []
            else
              (let c4 = wordLoopSquash (loopSquash 2 15 c3)
               in if list_ex (\<lambda>pattern. pattern (trim c4)) noisePatterns then []
                  else (let c6 = finalCleanup c4 in if length c6 < 3 then [] else c6))))"

section \<open>The hallucination filter \<^verbatim>\<open>filterHallucinations\<close> (src/api/transcribe.js, Groq application)\<close>

definition HALLUCINATION_WORDS :: "jsstring list" where
  "HALLUCINATION_WORDS =
     [[0x304A, 0x75B2, 0x308C, 0x69D8, 0x3067, 0x3057, 0x305F],
      [0x304A, 0x75B2, 0x308C, 0x3055, 0x307E, 0x3067, 0x3057, 0x305F],
      [0x3054, 0x8996, 0x8074, 0x3042, 0x308A, 0x304C, 0x3068, 0x3046, 0x3054, 0x3056, 0x3044, 0x307E, 0x3057, 0x305F],
      [0x8996, 0x8074, 0x3042, 0x308A, 0x304C, 0x3068, 0x3046, 0x3054, 0x3056, 0x3044, 0x307E, 0x3057, 0x305F],
      [0x3042, 0x308A, 0x304C, 0x3068, 0x3046, 0x3054, 0x3056, 0x3044, 0x307E, 0x3057, 0x305F],
      [0x30C1, 0x30E3, 0x30F3, 0x30CD, 0x30EB, 0x767B, 0x9332],
      [0x9AD8, 0x8A55, 0x4FA1],
      [0x5B57, 0x5E55],
      [0x30B5, 0x30D6, 0x30BF, 0x30A4, 0x30C8, 0x30EB],
      ascii ''MBC'',
      ascii ''IYH'',
      ascii ''Translated by'',
      ascii ''Subtitles by'',
      ascii ''Amara.org'']"

text \<open>
  The first block: when the pattern matches, either the first match is longer than half
  of the text (reject) or every match is replaced by its group.
\<close>

definition squashOrReject :: "jsstring \<Rightarrow> jsstring option" where
  "squashOrReject s =
     (case loopSearch 3 20 s of
        None \<Rightarrow> Some s
      | Some (p, k, l) \<Rightarrow> if length s < 2 * l then None else Some (loopSquash 3 20 s))"

definition collapseNoise_groq :: "jsstring \<Rightarrow> jsstring" where
  "collapseNoise_groq s =
     (let c1 = replaceRuns (\<lambda>c. isDigit c \<or> c = 0x002E) 4 [] [] s;
          c2 = replaceRuns (\<lambda>c. c = 0x002E) 2 [] [] c1;
          c3 = replaceRuns (\<lambda>c. c = 0x3002) 2 [0x3002] [] c2
      in replaceRuns isWhiteSpace 2 [0x0020] [] c3)"

definition filterHallucinations :: "jsstring \<Rightarrow> jsstring" where
  "filterHallucinations s =
     (if s = [] then []
      else
        (case squashOrReject s of
           None \<Rightarrow> []
         | Some c1 \<Rightarrow>
             if list_ex (\<lambda>w. trim c1 = w \<or> trim c1 = w @ [0x3002]) HALLUCINATION_WORDS then []
             else
               (let c2 = foldl dropSentences c1 HALLUCINATION_WORDS;
                    c3 = collapseNoise_groq c2
                in if length (trim c3) \<le> 2 then [] else trim c3)))"

section \<open>Keyword correction\<close>

record keyword =
  kid :: nat
  word :: jsstring

text \<open>
  \<^verbatim>\<open>processed.replace(new RegExp(escapeRegExp(w), 'gi'), w)\<close>. The pattern is the keyword
  with every regular-expression metacharacter escaped: it matches the keyword's units
  literally, compared after canonicalisation (flag \<^verbatim>\<open>i\<close>). The table of the engine's
  \<^verbatim>\<open>Canonicalize\<close> is the parameter \<open>canon\<close>.

  The second argument is the raw keyword, used as a replacement \<^emph>\<open>pattern\<close>:
  \<^verbatim>\<open>$$\<close> inserts a dollar sign, \<^verbatim>\<open>$&\<close> the matched text, \<^verbatim>\<open>$`\<close> the text before the
  match and \<^verbatim>\<open>$'\<close> the text after it; the pattern has no capture group, so \<^verbatim>\<open>$1\<close> and the
  like stay as they are. \<open>getSubstitution matched str position replacement\<close> is the text
  inserted for one match.
\<close>

fun getSubstitution :: "jsstring \<Rightarrow> jsstring \<Rightarrow> nat \<Rightarrow> jsstring \<Rightarrow> jsstring" where
  "getSubstitution matched str position (c # d # r) =
     (if c = 0x0024 \<and> d = 0x0024 then 0x0024 # getSubstitution matched str position r
      else if c = 0x0024 \<and> d = 0x0026 then matched @ getSubstitution matched str position r
      else if c = 0x0024 \<and> d = 0x0060 then take position str @ getSubstitution matched str position r
      else if c = 0x0024 \<and> d = 0x0027
        then drop (position + length matched) str @ getSubstitution matched str position r
      else c # getSubstitution matched str position (d # r))"
| "getSubstitution matched str position r = r"

definition ciStartsWith :: "(nat \<Rightarrow> nat) \<Rightarrow> jsstring \<Rightarrow> jsstring \<Rightarrow> bool" where
  "ciStartsWith canon s w \<longleftrightarrow> map canon (take (length w) s) = map canon w"

text \<open>
  The global replacement: matches are found from left to right in the original string
  \<open>str\<close> and do not overlap; \<open>position\<close> is the index in \<open>str\<close> of the suffix being
  scanned. After a match of the non-empty \<open>w\<close> the scan goes on at
  \<^verbatim>\<open>drop (length w) (c # cs)\<close>.
\<close>

fun replaceFrom :: "(nat \<Rightarrow> nat) \<Rightarrow> jsstring \<Rightarrow> jsstring \<Rightarrow> nat \<Rightarrow> jsstring \<Rightarrow> jsstring" where
  "replaceFrom canon w str position [] = []"
| "replaceFrom canon w str position (c # cs) =
     (if ciStartsWith canon (c # cs) w
      then getSubstitution (take (length w) (c # cs)) str position w
             @ replaceFrom canon w str (position + length w) (drop (length w - 1) cs)
      else c # replaceFrom canon w str (Suc position) cs)"

text \<open>
  An empty keyword gives the empty pattern, which matches at every position and inserts
  the empty replacement: the text is unchanged.
\<close>

definition replaceKeyword :: "(nat \<Rightarrow> nat) \<Rightarrow> jsstring \<Rightarrow> jsstring \<Rightarrow> jsstring" where
  "replaceKeyword canon w str = (if w = [] then str else replaceFrom canon w str 0 str)"

definition processKeywords :: "(nat \<Rightarrow> nat) \<Rightarrow> keyword list \<Rightarrow> jsstring \<Rightarrow> jsstring" where
  "processKeywords canon kws s = foldl (\<lambda>processed k. replaceKeyword canon (word k) processed) s kws"

section \<open>Application state\<close>

text \<open>
  The global \<^verbatim>\<open>state\<close> object, together with what the handlers change outside it: the
  status indicator, the toasts shown, the keyword input field, the messages posted to the
  worker and the two entries of \<^verbatim>\<open>localStorage\<close>. \<open>storageFull\<close> says that
  \<^verbatim>\<open>localStorage.setItem\<close> throws; \<open>worker\<close> that \<^verbatim>\<open>state.worker\<close> is not null.
\<close>

datatype status = Ready | Recording | Loading | Processing

datatype toastType = Success | Error | Warning | Info

datatype view = Home | Detail

datatype 'a stored = Missing | Corrupt | Stored 'a

datatype workerMessage = Transcribe waveform jsstring

record transcription =
  tid :: jsstring
  date :: jsstring
  preview :: jsstring
  fullText :: jsstring

record appState =
  currentView :: view
  currentTranscriptionId :: "jsstring option"
  isRecording :: bool
  isProcessing :: bool
  transcriptions :: "transcription list"
  stateKeywords :: "keyword list"
  worker :: bool
  audioChunks :: "nat list list"
  statusShown :: status
  toasts :: "toastType list"
  keywordInput :: jsstring
  workerInbox :: "workerMessage list"
  storedTranscriptions :: "transcription list stored"
  storedKeywords :: "keyword list stored"
  storageFull :: bool

definition showToast :: "toastType \<Rightarrow> appState \<Rightarrow> appState" where
  "showToast ty s = s\<lparr>toasts := toasts s @ [ty]\<rparr>"

definition updateStatus :: "status \<Rightarrow> appState \<Rightarrow> appState" where
  "updateStatus st s = s\<lparr>statusShown := st\<rparr>"

subsection \<open>Transcription records\<close>

record jsDate =
  getTime :: nat
  getFullYear :: nat
  getMonth :: nat
  getDate :: nat
  getHours :: nat
  getMinutes :: nat

fun decimal :: "nat \<Rightarrow> jsstring" where
  "decimal n = (if n < 10 then [0x0030 + n] else decimal (n div 10) @ [0x0030 + n mod 10])"

declare decimal.simps [simp del]

definition padStart2 :: "jsstring \<Rightarrow> jsstring" where
  "padStart2 s = replicate (2 - length s) 0x0030 @ s"

definition formatDate :: "jsDate \<Rightarrow> jsstring" where
  "formatDate d =
     decimal (getFullYear d) @ [0x002F] @ padStart2 (decimal (getMonth d + 1)) @ [0x002F]
       @ padStart2 (decimal (getDate d)) @ [0x0020] @ padStart2 (decimal (getHours d))
       @ [0x003A] @ padStart2 (decimal (getMinutes d))"

definition PREVIEW_LENGTH :: nat where
  "PREVIEW_LENGTH = 30"

definition createTranscription :: "jsDate \<Rightarrow> jsstring \<Rightarrow> transcription" where
  "createTranscription now s =
     \<lparr>tid = ascii ''ts_'' @ decimal (getTime now),
      date = formatDate now,
      preview = (if length s > PREVIEW_LENGTH then take PREVIEW_LENGTH s @ ascii ''...'' else s),
      fullText = s\<rparr>"

definition saveTranscriptions :: "appState \<Rightarrow> appState" where
  "saveTranscriptions s =
     (if storageFull s then showToast Error s
      else s\<lparr>storedTranscriptions := Stored (transcriptions s)\<rparr>)"

text \<open>The Groq application's \<^verbatim>\<open>saveTranscriptions\<close> only logs a failed write.\<close>

definition saveTranscriptions_groq :: "appState \<Rightarrow> appState" where
  "saveTranscriptions_groq s =
     (if storageFull s then s else s\<lparr>storedTranscriptions := Stored (transcriptions s)\<rparr>)"

definition navigateToDetail :: "jsstring \<Rightarrow> appState \<Rightarrow> appState" where
  "navigateToDetail ident s =
     (case find (\<lambda>t. tid t = ident) (transcriptions s) of
        None \<Rightarrow> s
      | Some t \<Rightarrow> s\<lparr>currentView := Detail, currentTranscriptionId := Some ident\<rparr>)"

subsection \<open>\<^verbatim>\<open>handleTranscriptionResult\<close>\<close>

text \<open>
  The result text may be missing (\<open>None\<close>). \<open>filter\<close> is \<^verbatim>\<open>cleanText\<close> in the
  local-worker application and \<^verbatim>\<open>filterHallucinations\<close> in the Groq application; the two
  handlers differ in nothing else but \<^verbatim>\<open>saveTranscriptions\<close>.
\<close>

definition storeResult ::
  "(appState \<Rightarrow> appState) \<Rightarrow> (nat \<Rightarrow> nat) \<Rightarrow> jsDate \<Rightarrow> jsstring \<Rightarrow> appState \<Rightarrow> appState" where
  "storeResult save canon now cleaned s =
     (let processedText = processKeywords canon (stateKeywords s) cleaned;
          newTranscription = createTranscription now processedText;
          s1 = s\<lparr>transcriptions := newTranscription # transcriptions s\<rparr>;
          s2 = save s1;
          s3 = navigateToDetail (tid newTranscription) s2
      in showToast Success s3)"

definition handleTranscriptionResult ::
  "(nat \<Rightarrow> nat) \<Rightarrow> jsDate \<Rightarrow> jsstring option \<Rightarrow> appState \<Rightarrow> appState" where
  "handleTranscriptionResult canon now result s =
     (let s1 = s\<lparr>isProcessing := False\<rparr> in
      case result of
        None \<Rightarrow> updateStatus Ready (showToast Warning s1)
      | Some t \<Rightarrow>
          if trim t = [] then updateStatus Ready (showToast Warning s1)
          else
            (let cleaned = cleanText (trim t) in
             if cleaned = [] then updateStatus Ready (showToast Warning s1)
             else updateStatus Ready (storeResult saveTranscriptions canon now cleaned s1)))"

definition handleTranscriptionResult_groq ::
  "(nat \<Rightarrow> nat) \<Rightarrow> jsDate \<Rightarrow> jsstring option \<Rightarrow> appState \<Rightarrow> appState" where
  "handleTranscriptionResult_groq canon now result s =
     (let s1 = s\<lparr>isProcessing := False\<rparr> in
      case result of
        None \<Rightarrow> updateStatus Ready (showToast Warning s1)
      | Some t \<Rightarrow>
          if trim t = [] then updateStatus Ready (showToast Warning s1)
          else
            (let cleaned = filterHallucinations (trim t) in
             if cleaned = [] then updateStatus Ready (showToast Warning s1)
             else updateStatus Ready (storeResult saveTranscriptions_groq canon now cleaned s1)))"

subsection \<open>\<^verbatim>\<open>processAudioData\<close>\<close>





text \<open>
  src/main.js: \<^verbatim>\<open>resampleTo16kHzMono\<close> normalises what the platform rendered; a
  \<^verbatim>\<open>RangeError\<close> of \<^verbatim>\<open>normalizeAudio\<close> rejects its promise, and \<^verbatim>\<open>processAudioData\<close>
  catches it as it catches every other exception.
\<close>

definition resampleTo16kHzMono ::
  "nat \<Rightarrow> (audioBuffer \<Rightarrow> int \<Rightarrow> waveform option) \<Rightarrow> audioBuffer \<Rightarrow> waveform option" where
  "resampleTo16kHzMono argLimit startRendering b =
     (case startRendering b (targetLength b) of
        None \<Rightarrow> None
      | Some rendered \<Rightarrow> normalizeAudio_main argLimit rendered)"


text \<open>
  src/api/transcribe.js (local-worker application): the offline rendering, or
  \<^verbatim>\<open>resampleManually\<close> when it throws; step 4 is the silence check, step 5 the
  normalisation.
\<close>

definition resampleWithOfflineContext ::
  "(audioBuffer \<Rightarrow> int \<Rightarrow> waveform option) \<Rightarrow> audioBuffer \<Rightarrow> waveform option" where
  "resampleWithOfflineContext startRendering b = startRendering b (targetLength b)"


subsection \<open>The keyword set\<close>

text \<open>
  \<^verbatim>\<open>saveKeywords\<close> has no \<^verbatim>\<open>try\<close>: when the write throws, the rest of the calling
  handler does not run. \<open>lower\<close> is the platform's \<^verbatim>\<open>String.prototype.toLowerCase\<close>, \<open>now\<close>
  is \<^verbatim>\<open>Date.now()\<close>.
\<close>

definition addKeyword :: "(jsstring \<Rightarrow> jsstring) \<Rightarrow> nat \<Rightarrow> appState \<Rightarrow> appState" where
  "addKeyword lower now s =
     (let input = trim (keywordInput s) in
      if input = [] then showToast Warning s
      else if list_ex (\<lambda>k. lower (word k) = lower input) (stateKeywords s) then showToast Warning s
      else
        (let s1 = s\<lparr>stateKeywords := stateKeywords s @ [\<lparr>kid = now, word = input\<rparr>]\<rparr> in
         if storageFull s1 then s1
         else showToast Success
                (s1\<lparr>storedKeywords := Stored (stateKeywords s1), keywordInput := []\<rparr>)))"

text \<open>The Groq application's \<^verbatim>\<open>addKeyword\<close> compares with \<^verbatim>\<open>===\<close>.\<close>

definition addKeyword_groq :: "nat \<Rightarrow> appState \<Rightarrow> appState" where
  "addKeyword_groq now s =
     (let w = trim (keywordInput s) in
      if w = [] then s
      else if list_ex (\<lambda>k. word k = w) (stateKeywords s) then showToast Warning s
      else
        (let s1 = s\<lparr>stateKeywords := stateKeywords s @ [\<lparr>kid = now, word = w\<rparr>]\<rparr> in
         if storageFull s1 then s1
         else showToast Success
                (s1\<lparr>storedKeywords := Stored (stateKeywords s1), keywordInput := []\<rparr>)))"

definition deleteKeyword :: "nat \<Rightarrow> appState \<Rightarrow> appState" where
  "deleteKeyword ident s =
     (let s1 = s\<lparr>stateKeywords := filter (\<lambda>k. kid k \<noteq> ident) (stateKeywords s)\<rparr> in
      if storageFull s1 then s1 else s1\<lparr>storedKeywords := Stored (stateKeywords s1)\<rparr>)"

text \<open>
  \<^verbatim>\<open>stored ? JSON.parse(stored) : []\<close> inside \<^verbatim>\<open>try\<close>: a missing entry and an
  unparsable one both give the empty list.
\<close>

definition loadKeywords :: "appState \<Rightarrow> appState" where
  "loadKeywords s =
     s\<lparr>stateKeywords := (case storedKeywords s of Stored ks \<Rightarrow> ks | _ \<Rightarrow> [])\<rparr>"

text \<open>The invariant of the keyword set: no two entries agree after \<^verbatim>\<open>toLowerCase\<close>.\<close>

definition uniqueKeywords :: "(jsstring \<Rightarrow> jsstring) \<Rightarrow> keyword list \<Rightarrow> bool" where
  "uniqueKeywords lower ks \<longleftrightarrow> distinct (map (\<lambda>k. lower (word k)) ks)"

text \<open>
  The state at start-up (\<^verbatim>\<open>let state = {...}\<close>), before \<^verbatim>\<open>init\<close> has loaded anything and
  before a worker exists; the storage is empty and writable.
\<close>

definition initialState :: appState where
  "initialState =
     \<lparr>currentView = Home, currentTranscriptionId = None, isRecording = False,
      isProcessing = False, transcriptions = [], stateKeywords = [], worker = False,
      audioChunks = [], statusShown = Ready, toasts = [], keywordInput = [],
      workerInbox = [], storedTranscriptions = Missing, storedKeywords = Missing,
      storageFull = False\<rparr>"

section \<open>Example transcripts\<close>

text \<open>
  The inputs of the specification's examples, as code units:
  \<open>ex_loop\<close> is U+305D U+3046 U+3067 U+3059 ("so-u-de-su") four times;
  \<open>ex_meeting\<close> is the sentence "kyou wa kaigi deshita" (eight units), and
  \<open>ex_thanks\<close> the blacklisted phrase "go-shichou arigatou gozaimashita";
  \<open>ex_blacklist\<close> is the two sentences, each followed by the full stop U+3002;
  \<open>ex_short\<close> is U+3042 U+3002 ("a" and a full stop) and \<open>ex_kaigichu\<close> is
  "kaigi-chuu" and a full stop.
\<close>

definition ex_loop :: jsstring where
  "ex_loop = [0x305D, 0x3046, 0x3067, 0x3059, 0x305D, 0x3046, 0x3067, 0x3059,
              0x305D, 0x3046, 0x3067, 0x3059, 0x305D, 0x3046, 0x3067, 0x3059]"

definition ex_meeting :: jsstring where
  "ex_meeting = [0x4ECA, 0x65E5, 0x306F, 0x4F1A, 0x8B70, 0x3067, 0x3057, 0x305F]"

definition ex_thanks :: jsstring where
  "ex_thanks = [0x3054, 0x8996, 0x8074, 0x3042, 0x308A, 0x304C, 0x3068, 0x3046,
                0x3054, 0x3056, 0x3044, 0x307E, 0x3057, 0x305F]"

definition ex_blacklist :: jsstring where
  "ex_blacklist = ex_meeting @ [0x3002] @ ex_thanks @ [0x3002]"

definition ex_short :: jsstring where
  "ex_short = [0x3042, 0x3002]"

definition ex_kaigichu :: jsstring where
  "ex_kaigichu = [0x4F1A, 0x8B70, 0x4E2D, 0x3002]"

text \<open>
  \<open>ex_two_loops\<close> is \<^verbatim>\<open>abcabcabcxyzxyzxyzxyz\<close>: the phrase \<^verbatim>\<open>xyz\<close> four times in a row
  covers 12 of the 21 units, after the shorter loop \<^verbatim>\<open>abcabcabc\<close>.
\<close>

definition ex_two_loops :: jsstring where
  "ex_two_loops = ascii ''abcabcabcxyzxyzxyzxyz''"

text \<open>
  For concrete runs: \<^verbatim>\<open>toLowerCase\<close> as it acts on a text of ASCII units, a date, and the
  keyword \<^verbatim>\<open>$'\<close> (a dollar sign and an apostrophe).
\<close>

definition asciiLower :: "jsstring \<Rightarrow> jsstring" where
  "asciiLower s = map (\<lambda>c. if 0x0041 \<le> c \<and> c \<le> 0x005A then c + 0x0020 else c) s"

definition ex_now :: jsDate where
  "ex_now = \<lparr>getTime = 1704164640000, getFullYear = 2024, getMonth = 0, getDate = 2,
             getHours = 3, getMinutes = 4\<rparr>"

definition ex_dollar :: keyword where
  "ex_dollar = \<lparr>kid = 1, word = [0x0024, 0x0027]\<rparr>"

section \<open>Auxiliary notions for the proofs about keyword correction\<close>

text \<open>
  For a keyword without a dollar sign, one global replacement overwrites the units of
  every match with the keyword and keeps the others: it is an overlay of the text by a
  mask that says, position by position, which unit is written (\<open>Some c\<close>) or that the
  text's unit is kept (\<open>None\<close>). The mask depends on the canonicalised text only.
\<close>

definition overlay :: "nat option list \<Rightarrow> jsstring \<Rightarrow> jsstring" where
  "overlay m s = map2 (\<lambda>a x. case a of None \<Rightarrow> x | Some c \<Rightarrow> c) m s"

fun mask :: "(nat \<Rightarrow> nat) \<Rightarrow> jsstring \<Rightarrow> jsstring \<Rightarrow> nat option list" where
  "mask canon w [] = []"
| "mask canon w (c # cs) =
     (if ciStartsWith canon (c # cs) w
      then map Some w @ mask canon w (drop (length w - 1) cs)
      else None # mask canon w cs)"

definition keywordMask :: "(nat \<Rightarrow> nat) \<Rightarrow> jsstring \<Rightarrow> jsstring \<Rightarrow> nat option list" where
  "keywordMask canon w s = (if w = [] then replicate (length s) None else mask canon w s)"

definition mergeMask :: "nat option list \<Rightarrow> nat option list \<Rightarrow> nat option list" where
  "mergeMask m2 m1 = map2 (\<lambda>a b. case a of None \<Rightarrow> b | Some c \<Rightarrow> Some c) m2 m1"

definition keywordsMask :: "(nat \<Rightarrow> nat) \<Rightarrow> keyword list \<Rightarrow> jsstring \<Rightarrow> nat option list" where
  "keywordsMask canon ks s =
     foldl (\<lambda>m k. mergeMask (keywordMask canon (word k) s) m) (replicate (length s) None) ks"

section \<open>Properties of the audio stage\<close>

subsection \<open>Rounding\<close>

lemma roundEven_error: "\<bar>real_of_int (roundEven x) - x\<bar> \<le> 1/2"
  unfolding roundEven_def Let_def by (auto; linarith)

lemma roundEven_eval:
  "real_of_int n - 1/2 < x \<Longrightarrow> x < real_of_int n + 1/2 \<Longrightarrow> roundEven x = n"
  unfolding roundEven_def Let_def by (auto; linarith)

lemma roundEven_nonneg: "0 \<le> x \<Longrightarrow> 0 \<le> roundEven x"
  unfolding roundEven_def Let_def by (auto; linarith)

lemma binade_bounds:
  assumes "x \<noteq> 0"
  shows "2 powr real_of_int (binade x) \<le> \<bar>x\<bar>" and "\<bar>x\<bar> < 2 powr real_of_int (binade x + 1)"
  using assms floor_log_eq_powr_iff [of "\<bar>x\<bar>" 2 "binade x"] by (simp_all add: binade_def)

lemma binade_eq:
  assumes "2 powr real_of_int e \<le> \<bar>x\<bar>" and "\<bar>x\<bar> < 2 powr real_of_int (e + 1)"
  shows "binade x = e"
proof -
  have "0 < (2::real) powr real_of_int e" by simp
  with assms(1) have "0 < \<bar>x\<bar>" by linarith
  with assms floor_log_eq_powr_iff [of "\<bar>x\<bar>" 2 e] show ?thesis by (simp add: binade_def)
qed

lemma binade_ge:
  assumes "2 powr real_of_int e \<le> \<bar>x\<bar>"
  shows "e \<le> binade x"
proof -
  have "0 < (2::real) powr real_of_int e" by simp
  with assms have x: "x \<noteq> 0" by auto
  have "2 powr real_of_int e < 2 powr real_of_int (binade x + 1)"
    using assms binade_bounds(2) [OF x] by linarith
  then have "real_of_int e < real_of_int (binade x + 1)" by simp
  then show ?thesis by linarith
qed

lemma roundTo_error:
  "\<bar>roundTo p emin x - x\<bar> \<le> 2 powr real_of_int (max (binade x) emin - int p)"
proof (cases "x = 0")
  case True
  then show ?thesis by (simp add: roundTo_def)
next
  case False
  define k where "k = max (binade x) emin - int p"
  define q :: real where "q = 2 powr real_of_int (k + 1)"
  have q: "0 < q" by (simp add: q_def)
  have q2: "q = 2 * 2 powr real_of_int k"
    by (simp add: q_def powr_add)
  have r: "roundTo p emin x = q * real_of_int (roundEven (x / q))"
    using False by (simp add: roundTo_def Let_def q_def k_def)
  have "roundTo p emin x - x = q * (real_of_int (roundEven (x / q)) - x / q)"
    using q by (simp add: r algebra_simps)
  then have "\<bar>roundTo p emin x - x\<bar> = q * \<bar>real_of_int (roundEven (x / q)) - x / q\<bar>"
    using q by (simp add: abs_mult)
  also have "\<dots> \<le> q * (1/2)"
    using q roundEven_error [of "x / q"] by (intro mult_left_mono) simp_all
  also have "\<dots> = 2 powr real_of_int k" by (simp add: q2)
  finally show ?thesis by (simp add: k_def)
qed

lemma roundTo_rel:
  assumes "2 powr real_of_int emin \<le> \<bar>x\<bar>"
  shows "\<bar>roundTo p emin x - x\<bar> \<le> 2 powr (- real p) * \<bar>x\<bar>"
proof -
  have "0 < (2::real) powr real_of_int emin" by simp
  with assms have x: "x \<noteq> 0" by auto
  from binade_ge [OF assms] have m: "max (binade x) emin = binade x" by simp
  have "\<bar>roundTo p emin x - x\<bar> \<le> 2 powr real_of_int (binade x - int p)"
    using roundTo_error [of p emin x] by (simp add: m)
  also have "\<dots> = 2 powr (- real p) * 2 powr real_of_int (binade x)"
    by (simp add: powr_add [symmetric])
  also have "\<dots> \<le> 2 powr (- real p) * \<bar>x\<bar>"
    using binade_bounds(1) [OF x] by (intro mult_left_mono) simp_all
  finally show ?thesis .
qed

lemma roundTo_abs:
  "\<bar>roundTo p emin x - x\<bar> \<le> 2 powr (- real p) * \<bar>x\<bar> + 2 powr real_of_int (emin - int p)"
proof (cases "2 powr real_of_int emin \<le> \<bar>x\<bar>")
  case True
  have "0 \<le> (2::real) powr real_of_int (emin - int p)" by simp
  with roundTo_rel [OF True, of p] show ?thesis by linarith
next
  case False
  have "binade x < emin \<or> x = 0"
  proof (rule ccontr)
    assume "\<not> (binade x < emin \<or> x = 0)"
    then have x: "x \<noteq> 0" and "emin \<le> binade x" by auto
    then have "2 powr real_of_int emin \<le> 2 powr real_of_int (binade x)" by simp
    with binade_bounds(1) [OF x] False show False by linarith
  qed
  then show ?thesis
  proof
    assume "binade x < emin"
    then have m: "max (binade x) emin = emin" by simp
    have "0 \<le> 2 powr (- real p) * \<bar>x\<bar>" by simp
    with roundTo_error [of p emin x] show ?thesis unfolding m by linarith
  next
    assume "x = 0"
    then show ?thesis by (simp add: roundTo_def)
  qed
qed

lemma roundTo_nonneg: "0 \<le> x \<Longrightarrow> 0 \<le> roundTo p emin x"
  by (simp add: roundTo_def Let_def roundEven_nonneg)

lemma roundTo_eval:
  assumes "2 powr real_of_int e \<le> \<bar>x\<bar>" and "\<bar>x\<bar> < 2 powr real_of_int (e + 1)"
    and "emin \<le> e"
    and "roundEven (x / 2 powr real_of_int (e - int p + 1)) = n"
  shows "roundTo p emin x = 2 powr real_of_int (e - int p + 1) * real_of_int n"
proof -
  have "0 < (2::real) powr real_of_int e" by simp
  with assms(1) have x: "x \<noteq> 0" by auto
  from binade_eq [OF assms(1,2)] assms(3) have "max (binade x) emin = e" by simp
  with x assms(4) show ?thesis by (simp add: roundTo_def Let_def)
qed

text \<open>
  Evaluation: a number \<open>x\<close> of binade \<open>e\<close> rounds to \<open>n * 2 ^ (e - 52)\<close>, where \<open>n\<close>
  is the integer nearest to \<open>x / 2 ^ (e - 52)\<close> (and to \<open>n * 2 ^ (e - 23)\<close> in single
  precision).
\<close>

lemma fl64_eval:
  assumes "2 powr real_of_int e \<le> \<bar>x\<bar>" and "\<bar>x\<bar> < 2 powr real_of_int (e + 1)"
    and "- 1022 \<le> e"
    and "real_of_int n - 1/2 < x / 2 powr real_of_int (e - 52)"
    and "x / 2 powr real_of_int (e - 52) < real_of_int n + 1/2"
  shows "fl64 x = 2 powr real_of_int (e - 52) * real_of_int n"
  unfolding fl64_def
  using roundTo_eval [of e x "- 1022" 53 n, OF assms(1,2,3)] roundEven_eval [OF assms(4,5)]
  by simp


lemma fl64_0: "fl64 0 = 0"
  by (simp add: fl64_def roundTo_def)


lemma fl64_nonneg: "0 \<le> x \<Longrightarrow> 0 \<le> fl64 x"
  unfolding fl64_def by (rule roundTo_nonneg)

text \<open>The literals \<^verbatim>\<open>0.1\<close>, \<^verbatim>\<open>0.001\<close> and \<^verbatim>\<open>0.95\<close> as doubles.\<close>

lemma fl64_tenth: "fl64 (1/10) = 3602879701896397/36028797018963968"
  by (subst fl64_eval [where e = "- 4" and n = 7205759403792794])
    (simp_all add: powr_neg_numeral)

lemma fl64_thousandth: "fl64 (1/1000) = 1152921504606847/1152921504606846976"
  by (subst fl64_eval [where e = "- 10" and n = 4611686018427388])
    (simp_all add: powr_neg_numeral)

lemma fl64_95: "fl64 (95/100) = 4278419646001971/4503599627370496"
  by (subst fl64_eval [where e = "- 1" and n = 8556839292003942])
    (simp_all add: powr_neg_numeral)

text \<open>
  Error bounds in decimal: the unit roundoffs \<open>2\<^sup>-\<^sup>5\<^sup>3\<close> and \<open>2\<^sup>-\<^sup>2\<^sup>4\<close> and the
  halves of the least subnormals, rounded up.
\<close>

lemma fl64_close: "\<bar>fl64 x - x\<bar> \<le> \<bar>x\<bar> / 9000000000000000 + 1 / 10 ^ 300"
proof -
  have a: "(2::real) powr (- real 53) \<le> 1 / 9000000000000000"
    by (simp add: powr_neg_numeral)
  have b: "(2::real) powr real_of_int (- 1022 - int 53) \<le> 1 / 10 ^ 300"
    by (simp add: powr_neg_numeral)
  have "2 powr (- real 53) * \<bar>x\<bar> \<le> 1 / 9000000000000000 * \<bar>x\<bar>"
    using a by (intro mult_right_mono) simp_all
  with b roundTo_abs [of 53 "- 1022" x] show ?thesis
    unfolding fl64_def by simp
qed

lemma fl32_close: "\<bar>fl32 x - x\<bar> \<le> \<bar>x\<bar> / 16000000 + 1 / 10 ^ 45"
proof -
  have a: "(2::real) powr (- real 24) \<le> 1 / 16000000"
    by (simp add: powr_neg_numeral)
  have b: "(2::real) powr real_of_int (- 126 - int 24) \<le> 1 / 10 ^ 45"
    by (simp add: powr_neg_numeral)
  have "2 powr (- real 24) * \<bar>x\<bar> \<le> 1 / 16000000 * \<bar>x\<bar>"
    using a by (intro mult_right_mono) simp_all
  with b roundTo_abs [of 24 "- 126" x] show ?thesis
    unfolding fl32_def by simp
qed

lemma tiny64: "(1::real) / 10 ^ 300 \<le> 1 / 1000000000000000000000000000000000000000000000000000000000000"
  by simp

lemma tiny32: "(1::real) / 10 ^ 45 \<le> 1 / 1000000000000000000000000000000"
  by simp

subsection \<open>The peak after \<^verbatim>\<open>normalizeAudio\<close>\<close>

lemma foldl_maxAmpStep_ge: "m \<le> foldl maxAmpStep m xs"
proof (induction xs arbitrary: m)
  case Nil
  show ?case by simp
next
  case (Cons x xs)
  have "m \<le> maxAmpStep m x" by (simp add: maxAmpStep_def)
  also have "\<dots> \<le> foldl maxAmpStep (maxAmpStep m x) xs" by (rule Cons.IH)
  finally show ?case by simp
qed

lemma maxAmp_nonneg: "0 \<le> maxAmp xs"
  unfolding maxAmp_def by (rule foldl_maxAmpStep_ge)

lemma maxAmp_bounds_samples: "x \<in> set xs \<Longrightarrow> \<bar>x\<bar> \<le> maxAmp xs"
proof -
  have "x \<in> set xs \<Longrightarrow> \<bar>x\<bar> \<le> foldl maxAmpStep m xs" for m
  proof (induction xs arbitrary: m)
    case Nil
    then show ?case by simp
  next
    case (Cons y ys)
    show ?case
    proof (cases "x = y")
      case True
      have "\<bar>x\<bar> \<le> maxAmpStep m y" using True by (simp add: maxAmpStep_def)
      also have "\<dots> \<le> foldl maxAmpStep (maxAmpStep m y) ys" by (rule foldl_maxAmpStep_ge)
      finally show ?thesis by simp
    next
      case False
      with Cons.prems have "x \<in> set ys" by simp
      then show ?thesis using Cons.IH by simp
    qed
  qed
  then show "x \<in> set xs \<Longrightarrow> \<bar>x\<bar> \<le> maxAmp xs" unfolding maxAmp_def .
qed

lemma foldl_maxAmpStep_le:
  "m \<le> B \<Longrightarrow> (\<And>x. x \<in> set xs \<Longrightarrow> \<bar>x\<bar> \<le> B) \<Longrightarrow> foldl maxAmpStep m xs \<le> B"
proof (induction xs arbitrary: m)
  case Nil
  then show ?case by simp
next
  case (Cons y ys)
  have "maxAmpStep m y \<le> B"
    using Cons.prems(1) Cons.prems(2) [of y] by (simp add: maxAmpStep_def)
  then have "foldl maxAmpStep (maxAmpStep m y) ys \<le> B"
    using Cons.prems(2) by (intro Cons.IH) simp_all
  then show ?case by simp
qed

lemma maxAmp_le: "0 \<le> B \<Longrightarrow> (\<And>x. x \<in> set xs \<Longrightarrow> \<bar>x\<bar> \<le> B) \<Longrightarrow> maxAmp xs \<le> B"
  unfolding maxAmp_def by (rule foldl_maxAmpStep_le)

lemma foldl_maxAmpStep_attained:
  "foldl maxAmpStep m xs = m \<or> (\<exists>x \<in> set xs. \<bar>x\<bar> = foldl maxAmpStep m xs)"
proof (induction xs arbitrary: m)
  case Nil
  show ?case by simp
next
  case (Cons y ys)
  have step: "maxAmpStep m y = m \<or> maxAmpStep m y = \<bar>y\<bar>"
    by (simp add: maxAmpStep_def)
  from Cons.IH [of "maxAmpStep m y"] show ?case
  proof
    assume "foldl maxAmpStep (maxAmpStep m y) ys = maxAmpStep m y"
    with step show ?thesis by auto
  next
    assume "\<exists>x \<in> set ys. \<bar>x\<bar> = foldl maxAmpStep (maxAmpStep m y) ys"
    then show ?thesis by auto
  qed
qed

lemma maxAmp_attained: "0 < maxAmp xs \<Longrightarrow> \<exists>x \<in> set xs. \<bar>x\<bar> = maxAmp xs"
  using foldl_maxAmpStep_attained [of 0 xs] by (auto simp: maxAmp_def)

text \<open>
  A sample of magnitude at most the peak \<open>m\<close> is scaled to at most 0.95, up to the
  rounding of the four operations involved (the literal, the division, the product and
  the store in single precision); the peak sample itself is scaled to 0.95 up to the
  same rounding.
\<close>

lemma scaled_sample:
  assumes m: "0 < m" "m \<le> 2 ^ 128" and x: "\<bar>x\<bar> \<le> m"
  shows "\<bar>fl32 (fl64 (x * fl64 (fl64 (95/100) / m)))\<bar> \<le> 95/100 + 1 / 10 ^ 7"
    and "\<bar>x\<bar> = m \<Longrightarrow> 95/100 - 1 / 10 ^ 7 \<le> \<bar>fl32 (fl64 (x * fl64 (fl64 (95/100) / m)))\<bar>"
proof -
  define c :: real where "c = 4278419646001971/4503599627370496"
  define s where "s = fl64 (c / m)"
  define t where "t = fl64 (x * s)"
  define r where "r = fl32 t"
  have r: "fl32 (fl64 (x * fl64 (fl64 (95/100) / m))) = r"
    unfolding fl64_95 r_def t_def s_def c_def ..
  have e: "(1::real) / 10 ^ 7 = 1 / 10000000" by simp
  have c: "95/100 - 1 / 10000000000000000 \<le> c" "c \<le> 95/100" "0 < c"
    by (simp_all add: c_def)
  have cm: "0 \<le> c / m" using c m by simp
  have s0: "0 \<le> s" unfolding s_def using cm by (rule fl64_nonneg)
  have "\<bar>s - c / m\<bar> \<le> \<bar>c / m\<bar> / 9000000000000000 + 1 / 10 ^ 300"
    unfolding s_def by (rule fl64_close)
  then have s1: "s \<le> c / m + c / m / 9000000000000000 + 1 / 10 ^ 300"
    and s2: "c / m - c / m / 9000000000000000 - 1 / 10 ^ 300 \<le> s"
    using cm by linarith+
  have tiny: "m / 10 ^ 300 \<le> 1 / 1000000000000000000000000000000000000000000000000000000000000"
  proof -
    have "m / 10 ^ 300 \<le> 2 ^ 128 / 10 ^ 300" using m by (simp add: divide_right_mono)
    also have "\<dots> \<le> (1 / 1000000000000000000000000000000000000000000000000000000000000 :: real)" by simp
    finally show ?thesis .
  qed
  have "m * s \<le> m * (c / m + c / m / 9000000000000000 + 1 / 10 ^ 300)"
    using s1 m by (intro mult_left_mono) simp_all
  also have "\<dots> = c + c / 9000000000000000 + m / 10 ^ 300"
    using m by (simp add: algebra_simps)
  finally have ms1: "m * s \<le> 95/100 + 2 / 10000000000000000"
    using c tiny by linarith
  have "m * (c / m - c / m / 9000000000000000 - 1 / 10 ^ 300) \<le> m * s"
    using s2 m by (intro mult_left_mono) simp_all
  moreover have "m * (c / m - c / m / 9000000000000000 - 1 / 10 ^ 300)
                   = c - c / 9000000000000000 - m / 10 ^ 300"
    using m by (simp add: algebra_simps)
  ultimately have ms2: "95/100 - 3 / 10000000000000000 \<le> m * s"
    using c tiny by linarith
  have xs: "\<bar>x * s\<bar> = \<bar>x\<bar> * s" using s0 by (simp add: abs_mult)
  have "\<bar>x\<bar> * s \<le> m * s" using x s0 by (rule mult_right_mono)
  with xs ms1 have xs1: "\<bar>x * s\<bar> \<le> 95/100 + 2 / 10000000000000000" by linarith
  have tb: "\<bar>t - x * s\<bar> \<le> \<bar>x * s\<bar> / 9000000000000000 + 1 / 10 ^ 300"
    unfolding t_def by (rule fl64_close)
  have t1: "\<bar>t\<bar> \<le> 95/100 + 4 / 10000000000000000"
    using tb xs1 tiny64 by linarith
  have rb: "\<bar>r - t\<bar> \<le> \<bar>t\<bar> / 16000000 + 1 / 10 ^ 45"
    unfolding r_def by (rule fl32_close)
  have "\<bar>r\<bar> \<le> 95/100 + 1 / 10000000"
    using rb t1 tiny32 by linarith
  then show "\<bar>fl32 (fl64 (x * fl64 (fl64 (95/100) / m)))\<bar> \<le> 95/100 + 1 / 10 ^ 7"
    unfolding r e .
  show "95/100 - 1 / 10 ^ 7 \<le> \<bar>fl32 (fl64 (x * fl64 (fl64 (95/100) / m)))\<bar>" if "\<bar>x\<bar> = m"
  proof -
    from that xs ms2 have xs2: "95/100 - 3 / 10000000000000000 \<le> \<bar>x * s\<bar>" by simp
    have t2: "95/100 - 5 / 10000000000000000 \<le> \<bar>t\<bar>"
      using tb xs1 xs2 tiny64 by linarith
    have "95/100 - 1 / 10000000 \<le> \<bar>r\<bar>"
      using rb t1 t2 tiny32 by linarith
    then show ?thesis unfolding r e .
  qed
qed

lemma normalizeAudio_cases:
  "normalizeAudio xs =
     (if (maxAmp xs \<le> 1 \<and> fl64 (1/10) \<le> maxAmp xs) \<or> maxAmp xs < fl64 (1/1000) then xs
      else map (\<lambda>x. fl32 (fl64 (x * fl64 (fl64 (95/100) / maxAmp xs)))) xs)"
  by (simp add: normalizeAudio_def Let_def)

lemma normalizeAudio_scaled_peak:
  assumes "0 < maxAmp xs" and "maxAmp xs \<le> 2 ^ 128"
  shows "maxAmp (map (\<lambda>x. fl32 (fl64 (x * fl64 (fl64 (95/100) / maxAmp xs)))) xs) \<le> 95/100 + 1 / 10 ^ 7"
    and "95/100 - 1 / 10 ^ 7 \<le> maxAmp (map (\<lambda>x. fl32 (fl64 (x * fl64 (fl64 (95/100) / maxAmp xs)))) xs)"
proof -
  let ?f = "\<lambda>x. fl32 (fl64 (x * fl64 (fl64 (95/100) / maxAmp xs)))"
  show "maxAmp (map ?f xs) \<le> 95/100 + 1 / 10 ^ 7"
  proof (rule maxAmp_le)
    show "(0::real) \<le> 95/100 + 1 / 10 ^ 7" by simp
  next
    fix y assume "y \<in> set (map ?f xs)"
    then obtain x where x: "x \<in> set xs" and y: "y = ?f x" by auto
    from scaled_sample(1) [OF assms maxAmp_bounds_samples [OF x]] show "\<bar>y\<bar> \<le> 95/100 + 1 / 10 ^ 7"
      unfolding y .
  qed
  from maxAmp_attained [OF assms(1)] obtain x where x: "x \<in> set xs" and p: "\<bar>x\<bar> = maxAmp xs"
    by blast
  from p have "\<bar>x\<bar> \<le> maxAmp xs" by simp
  from scaled_sample(2) [OF assms this p] have "95/100 - 1 / 10 ^ 7 \<le> \<bar>?f x\<bar>" .
  also have "\<dots> \<le> maxAmp (map ?f xs)"
    using x by (intro maxAmp_bounds_samples) simp
  finally show "95/100 - 1 / 10 ^ 7 \<le> maxAmp (map ?f xs)" .
qed

lemma peak_after_normalizeAudio:
  assumes "1/1000 \<le> maxAmp xs" and "maxAmp xs \<le> 2 ^ 128"
  shows "(fl64 (1/10) \<le> maxAmp xs \<and> maxAmp xs \<le> 1 \<longrightarrow> normalizeAudio xs = xs)
       \<and> (maxAmp xs < 1/10 \<or> 1 < maxAmp xs \<longrightarrow> maxAmp (normalizeAudio xs) \<le> 95/100 + 1 / 10 ^ 7)
       \<and> (fl64 (1/1000) \<le> maxAmp xs \<and> (maxAmp xs < fl64 (1/10) \<or> 1 < maxAmp xs) \<longrightarrow>
             95/100 - 1 / 10 ^ 7 \<le> maxAmp (normalizeAudio xs))
       \<and> maxAmp (normalizeAudio xs) \<le> 1"
proof -
  from assms(1) have pos: "0 < maxAmp xs" by simp
  note sc = normalizeAudio_scaled_peak [OF pos assms(2)]
  have sc_eq: "normalizeAudio xs = map (\<lambda>x. fl32 (fl64 (x * fl64 (fl64 (95/100) / maxAmp xs)))) xs"
    if "\<not> ((maxAmp xs \<le> 1 \<and> fl64 (1/10) \<le> maxAmp xs) \<or> maxAmp xs < fl64 (1/1000))"
    using that by (simp only: normalizeAudio_cases if_False)
  have a: "normalizeAudio xs = xs" if "fl64 (1/10) \<le> maxAmp xs \<and> maxAmp xs \<le> 1"
    using that by (simp add: normalizeAudio_cases)
  have b: "maxAmp (normalizeAudio xs) \<le> 95/100 + 1 / 10 ^ 7" if "maxAmp xs < 1/10 \<or> 1 < maxAmp xs"
  proof (cases "(maxAmp xs \<le> 1 \<and> fl64 (1/10) \<le> maxAmp xs) \<or> maxAmp xs < fl64 (1/1000)")
    case True
    with that have "maxAmp xs < 1/10" unfolding fl64_tenth fl64_thousandth by linarith
    with True show ?thesis by (simp add: normalizeAudio_cases)
  next
    case False
    from sc(1) show ?thesis unfolding sc_eq [OF False] by simp
  qed
  have c: "95/100 - 1 / 10 ^ 7 \<le> maxAmp (normalizeAudio xs)"
    if "fl64 (1/1000) \<le> maxAmp xs \<and> (maxAmp xs < fl64 (1/10) \<or> 1 < maxAmp xs)"
  proof -
    from that have n: "\<not> ((maxAmp xs \<le> 1 \<and> fl64 (1/10) \<le> maxAmp xs) \<or> maxAmp xs < fl64 (1/1000))"
      by linarith
    from sc(2) show ?thesis unfolding sc_eq [OF n] by simp
  qed
  have d: "maxAmp (normalizeAudio xs) \<le> 1"
  proof (cases "(maxAmp xs \<le> 1 \<and> fl64 (1/10) \<le> maxAmp xs) \<or> maxAmp xs < fl64 (1/1000)")
    case True
    then have "maxAmp xs \<le> 1" unfolding fl64_tenth fl64_thousandth by linarith
    with True show ?thesis by (simp add: normalizeAudio_cases)
  next
    case False
    from sc(1) show ?thesis unfolding sc_eq [OF False] by simp
  qed
  from a b c d show ?thesis by blast
qed

text \<open>
  src/main.js: within the argument limit, \<^verbatim>\<open>Math.max(...audioData.map(Math.abs))\<close> is
  the peak that the loop computes, and the two versions return the same waveform.
\<close>

lemma foldl_max_abs: "foldl max m (map abs xs) = foldl maxAmpStep m xs"
  by (induction xs arbitrary: m) (simp_all add: maxAmpStep_def max_def)

lemma maxAmplitude_maxAmp:
  "xs \<noteq> [] \<Longrightarrow> length xs \<le> argLimit \<Longrightarrow> maxAmplitude argLimit xs = Some (Amplitude (maxAmp xs))"
proof -
  assume "xs \<noteq> []" and le: "length xs \<le> argLimit"
  then obtain x ys where xs: "xs = x # ys" by (cases xs) auto
  have "maxAmpStep 0 x = \<bar>x\<bar>" by (simp add: maxAmpStep_def)
  then show ?thesis using le by (simp add: xs maxAmplitude_def maxAmp_def foldl_max_abs)
qed

lemma normalizeAudio_main_eq:
  "normalizeAudio_main argLimit xs = (if argLimit < length xs then None else Some (normalizeAudio xs))"
proof (cases "xs = []")
  case True
  then show ?thesis
    by (simp add: normalizeAudio_main_def normalizeAudio_def maxAmplitude_def maxAmp_def
        fl64_tenth fl64_thousandth)
next
  case False
  show ?thesis
  proof (cases "argLimit < length xs")
    case True
    then show ?thesis by (simp add: normalizeAudio_main_def maxAmplitude_def)
  next
    case False
    with \<open>xs \<noteq> []\<close> maxAmplitude_maxAmp [of xs argLimit] show ?thesis
      by (simp add: normalizeAudio_main_def normalizeAudio_def Let_def)
  qed
qed

text \<open>
  C4 as stated fails: a waveform whose peak is 1 is "already well scaled" and is returned
  unchanged by both versions, so its peak after \<^verbatim>\<open>normalizeAudio\<close> exceeds 0.95 by 0.05.
  And the version of src/main.js returns nothing for a waveform of more samples than the
  engine accepts as arguments (65537 of them below, for a limit of 65536).
\<close>

theorem normalizeAudio_peak_counterexample:
  "1/1000 \<le> maxAmp [1, -1/2] \<and> normalizeAudio [1, -1/2] = [1, -1/2]
     \<and> normalizeAudio_main 65536 [1, -1/2] = Some [1, -1/2]
     \<and> maxAmp (normalizeAudio [1, -1/2]) - 95/100 = 5/100
     \<and> normalizeAudio_main 65536 (replicate 65537 (1/16)) = None"
  by (simp add: normalizeAudio_main_eq normalizeAudio_def maxAmp_def maxAmpStep_def fl64_tenth)

text \<open>
  C4, amended: for every non-silent waveform (peak at least 0.001; the samples are finite
  single-precision numbers, so that the peak is at most \<open>2 ^ 128\<close>) the peak after
  \<^verbatim>\<open>normalizeAudio\<close> is at most 1. A waveform whose peak lies between the double
  \<^verbatim>\<open>0.1\<close> and 1 is returned unchanged, so that its peak stays what it was, up to 1. A
  waveform whose peak is below 0.1 or above 1 comes out with a peak of at most
  \<open>0.95 + 10\<^sup>-\<^sup>7\<close>, and of at least \<open>0.95 - 10\<^sup>-\<^sup>7\<close> when it is rescaled (a peak of at
  least the double \<^verbatim>\<open>0.001\<close>, below the double \<^verbatim>\<open>0.1\<close> or above 1). The version of
  src/main.js obeys the same bounds whenever it returns a waveform.
\<close>

theorem normalizeAudio_peak:
  assumes "1/1000 \<le> maxAmp xs" and "maxAmp xs \<le> 2 ^ 128"
  shows "(fl64 (1/10) \<le> maxAmp xs \<and> maxAmp xs \<le> 1 \<longrightarrow> normalizeAudio xs = xs)
       \<and> (maxAmp xs < 1/10 \<or> 1 < maxAmp xs \<longrightarrow> maxAmp (normalizeAudio xs) \<le> 95/100 + 1 / 10 ^ 7)
       \<and> (fl64 (1/1000) \<le> maxAmp xs \<and> (maxAmp xs < fl64 (1/10) \<or> 1 < maxAmp xs) \<longrightarrow>
             95/100 - 1 / 10 ^ 7 \<le> maxAmp (normalizeAudio xs))
       \<and> maxAmp (normalizeAudio xs) \<le> 1
       \<and> (\<forall>ys. normalizeAudio_main argLimit xs = Some ys \<longrightarrow>
             (fl64 (1/10) \<le> maxAmp xs \<and> maxAmp xs \<le> 1 \<longrightarrow> ys = xs)
           \<and> (maxAmp xs < 1/10 \<or> 1 < maxAmp xs \<longrightarrow> maxAmp ys \<le> 95/100 + 1 / 10 ^ 7)
           \<and> (fl64 (1/1000) \<le> maxAmp xs \<and> (maxAmp xs < fl64 (1/10) \<or> 1 < maxAmp xs) \<longrightarrow>
                 95/100 - 1 / 10 ^ 7 \<le> maxAmp ys)
           \<and> maxAmp ys \<le> 1)"
proof -
  note loop = peak_after_normalizeAudio [OF assms]
  have "ys = normalizeAudio xs" if "normalizeAudio_main argLimit xs = Some ys" for ys
    using that by (simp add: normalizeAudio_main_eq split: if_splits)
  with loop show ?thesis by blast
qed

theorem normalizeAudio_peak_witness:
  "1/1000 \<le> maxAmp [1/16, -1/32] \<and> maxAmp [1/16, -1/32] \<le> 2 ^ 128
     \<and> maxAmp [1/16, -1/32] < 1/10
     \<and> normalizeAudio_main 65536 [1/16, -1/32] = Some (normalizeAudio [1/16, -1/32])
     \<and> maxAmp (normalizeAudio [1/16, -1/32]) \<le> 95/100 + 1 / 10 ^ 7
     \<and> 95/100 - 1 / 10 ^ 7 \<le> maxAmp (normalizeAudio [1/16, -1/32])
     \<and> 1/1000 \<le> maxAmp [1/2, -1/4] \<and> maxAmp [1/2, -1/4] \<le> 2 ^ 128
     \<and> fl64 (1/10) \<le> maxAmp [1/2, -1/4] \<and> maxAmp [1/2, -1/4] \<le> 1
     \<and> normalizeAudio [1/2, -1/4] = [1/2, -1/4]"
proof -
  have m: "maxAmp [1/16, -1/32] = 1/16"
    by (simp add: maxAmp_def maxAmpStep_def)
  have h1: "1/1000 \<le> maxAmp [1/16, -1/32]" and h2: "maxAmp [1/16, -1/32] \<le> 2 ^ 128"
    and h3: "maxAmp [1/16, -1/32] < 1/10"
    and h4: "fl64 (1/1000) \<le> maxAmp [1/16, -1/32]" and h5: "maxAmp [1/16, -1/32] < fl64 (1/10)"
    unfolding m fl64_tenth fl64_thousandth by simp_all
  have n: "normalizeAudio_main 65536 [1/16, -1/32] = Some (normalizeAudio [1/16, -1/32])"
    by (simp add: normalizeAudio_main_eq)
  from normalizeAudio_peak [OF h1 h2, where argLimit = 65536] h3 h4 h5
  have a: "maxAmp (normalizeAudio [1/16, -1/32]) \<le> 95/100 + 1 / 10 ^ 7
      \<and> 95/100 - 1 / 10 ^ 7 \<le> maxAmp (normalizeAudio [1/16, -1/32])"
    by blast
  have m': "maxAmp [1/2, -1/4] = 1/2"
    by (simp add: maxAmp_def maxAmpStep_def)
  have k1: "1/1000 \<le> maxAmp [1/2, -1/4]" and k2: "maxAmp [1/2, -1/4] \<le> 2 ^ 128"
    and k3: "fl64 (1/10) \<le> maxAmp [1/2, -1/4]" and k4: "maxAmp [1/2, -1/4] \<le> 1"
    unfolding m' fl64_tenth by simp_all
  from normalizeAudio_peak [OF k1 k2, where argLimit = 65536] k3 k4
  have b: "normalizeAudio [1/2, -1/4] = [1/2, -1/4]"
    by blast
  from h1 h2 h3 n a k1 k2 k3 k4 b show ?thesis by blast
qed

subsection \<open>Resampling: output length and downmix\<close>

lemma monoData_wf:
  assumes "wf_buffer b"
  shows "\<exists>md. monoData b = Some md \<and> length md = frames b"
proof (cases "channels b")
  case Nil
  with assms show ?thesis by (simp add: wf_buffer_def)
next
  case (Cons c cs)
  then have fr: "length c = frames b" by (simp add: frames_def)
  show ?thesis
  proof (cases cs)
    case Nil
    with Cons fr show ?thesis
      by (simp add: monoData_def numberOfChannels_def getChannelData_def)
  next
    case (Cons d ds)
    with \<open>channels b = c # cs\<close> fr show ?thesis
      by (simp add: monoData_def numberOfChannels_def getChannelData_def)
  qed
qed

lemma length_resampleManually:
  assumes "wf_buffer b"
  shows "\<exists>r. resampleManually b target = Some r
             \<and> length r = (if sampleRate b = target then frames b
                           else nat \<lfloor>fl64 (real (frames b) / fl64 (real (sampleRate b) / real target))\<rfloor>)"
proof -
  from monoData_wf [OF assms] obtain md where "monoData b = Some md" "length md = frames b"
    by blast
  then show ?thesis by (simp add: resampleManually_def Let_def)
qed

lemma length_normalizeAudio: "length (normalizeAudio xs) = length xs"
  by (simp add: normalizeAudio_def Let_def)

lemma length_normalizeAudio_main:
  "normalizeAudio_main argLimit xs = Some ys \<Longrightarrow> length ys = length xs"
  by (auto simp add: normalizeAudio_main_eq length_normalizeAudio split: if_splits)

text \<open>
  The lengths are computed in double precision: \<^verbatim>\<open>Math.floor(L / (Fs / T))\<close> by the
  fallback and \<^verbatim>\<open>Math.round((L / Fs) * 16000)\<close> for the offline rendering. Two roundings
  move the exact quotient \<open>L * T / Fs\<close> by less than \<open>1 / Fs\<close>, so the floor is the exact
  one unless the exact quotient is an integer, where the computed one may fall just
  below it.
\<close>

lemma floor_near_quotient:
  fixes N M :: nat and y :: real
  assumes M: "0 < M" and y: "\<bar>y - real N / real M\<bar> \<le> 8/10 / real M"
  shows "int (N div M) - 1 \<le> \<lfloor>y\<rfloor>" and "\<lfloor>y\<rfloor> \<le> int (N div M)"
    and "\<not> M dvd N \<Longrightarrow> \<lfloor>y\<rfloor> = int (N div M)"
proof -
  define n where "n = N div M"
  define k where "k = N mod M"
  define w :: real where "w = 1 / real M"
  have w: "0 < w" "w \<le> 1" using M by (simp_all add: w_def)
  have "N = n * M + k" by (simp add: n_def k_def)
  then have "real N = real n * real M + real k" by (metis of_nat_add of_nat_mult)
  then have x: "real N / real M = real n + real k * w"
    using M by (simp add: w_def field_simps)
  have main: "\<bar>y - (real n + real k * w)\<bar> \<le> 8/10 * w"
    using y unfolding x by (simp add: w_def)
  have k: "real k \<le> real M - 1"
  proof -
    have "k < M" using M by (simp add: k_def)
    then show ?thesis by linarith
  qed
  have "real k * w \<le> (real M - 1) * w" using k w by (intro mult_right_mono) simp_all
  also have "\<dots> = 1 - w" using M by (simp add: w_def field_simps)
  finally have kw: "real k * w \<le> 1 - w" .
  have kw0: "0 \<le> real k * w" using w by simp
  from main kw w have "y < real n + 1" by linarith
  then have up: "\<lfloor>y\<rfloor> \<le> int n" by (simp add: floor_le_iff)
  from main kw0 w have "real n - 1 \<le> y" by linarith
  then have "real_of_int (int n - 1) \<le> y" by simp
  then have low: "int n - 1 \<le> \<lfloor>y\<rfloor>" by (simp only: le_floor_iff)
  from low show "int (N div M) - 1 \<le> \<lfloor>y\<rfloor>" by (simp add: n_def)
  from up show "\<lfloor>y\<rfloor> \<le> int (N div M)" by (simp add: n_def)
  show "\<lfloor>y\<rfloor> = int (N div M)" if "\<not> M dvd N"
  proof -
    from that have "k \<noteq> 0" by (auto simp: k_def dvd_eq_mod_eq_0)
    then have "1 \<le> real k" by simp
    then have "1 * w \<le> real k * w" using w by (intro mult_right_mono) simp_all
    with main w have "real n \<le> y" by linarith
    then have "real_of_int (int n) \<le> y" by simp
    then have "int n \<le> \<lfloor>y\<rfloor>" by (simp only: le_floor_iff)
    with up show ?thesis by (simp add: n_def)
  qed
qed

lemma real_le_10_14: "n \<le> 10 ^ 14 \<Longrightarrow> real n \<le> 100000000000000"
proof -
  assume "n \<le> 10 ^ 14"
  then have "real n \<le> real (10 ^ 14)" by (simp only: of_nat_le_iff)
  then show ?thesis by simp
qed

lemma fl64_rel:
  assumes "1 / 1000000000000000000000000000000 \<le> x"
  shows "\<bar>fl64 x - x\<bar> \<le> x * 2 / 10000000000000000"
  using fl64_close [of x] tiny64 assms by linarith

lemma fallback_quotient_error:
  fixes L T Fs :: nat
  assumes Fs: "0 < Fs" "Fs \<le> 10 ^ 14" and T: "0 < T" and LT: "L * T \<le> 10 ^ 14"
  shows "\<bar>fl64 (real L / fl64 (real Fs / real T)) - real (L * T) / real Fs\<bar> \<le> 8/10 / real Fs"
proof (cases "L = 0")
  case True
  then show ?thesis by (simp add: fl64_0)
next
  case False
  then have L: "1 \<le> real L" by simp
  from False T have "T \<le> L * T" by simp
  from this LT have "T \<le> 10 ^ 14" by (rule le_trans)
  then have Tle: "real T \<le> 100000000000000" by (rule real_le_10_14)
  have Fsle: "real Fs \<le> 100000000000000" using Fs(2) by (rule real_le_10_14)
  have LTle: "real (L * T) \<le> 100000000000000" using LT by (rule real_le_10_14)
  have LT1: "1 \<le> real (L * T)"
  proof -
    have "(1::nat) \<le> L * T" using False T by (simp add: Suc_leI)
    then have "real 1 \<le> real (L * T)" by (simp only: of_nat_le_iff)
    then show ?thesis by simp
  qed
  define w :: real where "w = 1 / real Fs"
  have w: "0 < w" using Fs by (simp add: w_def)
  define \<rho> where "\<rho> = real Fs / real T"
  define \<rho>' where "\<rho>' = fl64 \<rho>"
  define x where "x = real (L * T) / real Fs"
  define z where "z = real L / \<rho>'"
  define y where "y = fl64 z"
  have \<rho>: "1 / 100000000000000 \<le> \<rho>"
  proof -
    have "1 / 100000000000000 \<le> 1 / real T" using T Tle by (intro divide_left_mono) simp_all
    also have "\<dots> \<le> real Fs / real T" using Fs T by (intro divide_right_mono) simp_all
    finally show ?thesis by (simp add: \<rho>_def)
  qed
  have \<rho>0: "0 < \<rho>" using Fs T by (simp add: \<rho>_def)
  have \<rho>\<rho>': "\<bar>\<rho>' - \<rho>\<bar> \<le> \<rho> * 2 / 10000000000000000"
    unfolding \<rho>'_def using \<rho> by (intro fl64_rel) linarith
  have "\<rho> - \<rho> * 2 / 10000000000000000 \<le> \<rho>'" and "\<rho>' \<le> \<rho> + \<rho> * 2 / 10000000000000000"
    using \<rho>\<rho>' by linarith+
  then have \<rho>'1: "\<rho> * (1 - 2 / 10000000000000000) \<le> \<rho>'"
    and \<rho>'2: "\<rho>' \<le> \<rho> * (1 + 2 / 10000000000000000)"
    by (simp_all add: algebra_simps)
  have \<rho>'0: "0 < \<rho>'"
  proof -
    have "0 < \<rho> * (1 - 2 / 10000000000000000)" using \<rho>0 by simp
    with \<rho>'1 show ?thesis by linarith
  qed
  have x\<rho>: "x * \<rho> = real L" using Fs T by (simp add: x_def \<rho>_def)
  have z\<rho>': "z * \<rho>' = real L" using \<rho>'0 by (simp add: z_def)
  have z0: "0 < z" using L \<rho>'0 by (simp add: z_def)
  have "\<rho> * (z * (1 - 2 / 10000000000000000)) = z * (\<rho> * (1 - 2 / 10000000000000000))" by simp
  also have "\<dots> \<le> z * \<rho>'" using \<rho>'1 z0 by (intro mult_left_mono) simp_all
  also have "\<dots> = \<rho> * x" using z\<rho>' x\<rho> by (simp add: mult.commute)
  finally have "z * (1 - 2 / 10000000000000000) \<le> x" using \<rho>0 by simp
  then have zx1: "z - z * 2 / 10000000000000000 \<le> x" by (simp add: algebra_simps)
  have "\<rho> * x = z * \<rho>'" using z\<rho>' x\<rho> by (simp add: mult.commute)
  also have "\<dots> \<le> z * (\<rho> * (1 + 2 / 10000000000000000))"
    using \<rho>'2 z0 by (intro mult_left_mono) simp_all
  also have "\<dots> = \<rho> * (z * (1 + 2 / 10000000000000000))" by simp
  finally have "x \<le> z * (1 + 2 / 10000000000000000)" using \<rho>0 by simp
  then have zx2: "x \<le> z + z * 2 / 10000000000000000" by (simp add: algebra_simps)
  have xw: "x = real (L * T) * w" by (simp add: x_def w_def)
  have xlow: "1 / 100000000000000 \<le> x"
  proof -
    have "1 / 100000000000000 \<le> 1 / real Fs" using Fs Fsle by (intro divide_left_mono) simp_all
    also have "\<dots> \<le> real (L * T) / real Fs"
      using LT1 Fs by (intro divide_right_mono) simp_all
    finally show ?thesis by (simp add: x_def)
  qed
  have yz: "\<bar>y - z\<bar> \<le> z * 2 / 10000000000000000"
    unfolding y_def using zx2 xlow z0 by (intro fl64_rel) linarith
  have yx: "\<bar>y - x\<bar> \<le> 8 / 10000000000000000 * x"
    using yz zx1 zx2 z0 xlow by linarith
  have "x \<le> 100000000000000 * w"
    unfolding xw using LTle w by (intro mult_right_mono) simp_all
  with yx have "\<bar>y - x\<bar> \<le> 8/10 * w" by linarith
  then show ?thesis by (simp add: y_def z_def \<rho>'_def \<rho>_def x_def w_def)
qed

lemma target_product_error:
  fixes L T Fs :: nat
  assumes Fs: "0 < Fs" "Fs \<le> 10 ^ 14" and T: "0 < T" and LT: "L * T \<le> 10 ^ 14"
  shows "\<bar>fl64 (fl64 (real L / real Fs) * real T) - real (L * T) / real Fs\<bar> \<le> 4/10 / real Fs"
proof (cases "L = 0")
  case True
  then show ?thesis by (simp add: fl64_0)
next
  case False
  then have L: "1 \<le> real L" by simp
  have T1: "1 \<le> real T" using T by simp
  have Fsle: "real Fs \<le> 100000000000000" using Fs(2) by (rule real_le_10_14)
  have LTle: "real (L * T) \<le> 100000000000000" using LT by (rule real_le_10_14)
  define w :: real where "w = 1 / real Fs"
  have w: "0 < w" using Fs by (simp add: w_def)
  define q where "q = real L / real Fs"
  define d where "d = fl64 q"
  define x where "x = real (L * T) / real Fs"
  define p where "p = d * real T"
  define y where "y = fl64 p"
  have q: "1 / 100000000000000 \<le> q"
  proof -
    have "1 / 100000000000000 \<le> 1 / real Fs" using Fs Fsle by (intro divide_left_mono) simp_all
    also have "\<dots> \<le> real L / real Fs" using L Fs by (intro divide_right_mono) simp_all
    finally show ?thesis by (simp add: q_def)
  qed
  have dq: "\<bar>d - q\<bar> \<le> q * 2 / 10000000000000000"
    unfolding d_def using q by (intro fl64_rel) linarith
  have xq: "x = q * real T" by (simp add: x_def q_def)
  have "\<bar>p - x\<bar> = \<bar>d - q\<bar> * real T"
    unfolding p_def xq by (simp add: left_diff_distrib [symmetric] abs_mult)
  also have "\<dots> \<le> q * 2 / 10000000000000000 * real T"
    using dq by (intro mult_right_mono) simp_all
  also have "\<dots> = x * 2 / 10000000000000000" by (simp add: xq)
  finally have px: "\<bar>p - x\<bar> \<le> x * 2 / 10000000000000000" .
  have "q * 1 \<le> q * real T" using q T1 by (intro mult_left_mono) simp_all
  with q have xlow: "1 / 100000000000000 \<le> x" unfolding xq by linarith
  have yp: "\<bar>y - p\<bar> \<le> p * 2 / 10000000000000000"
    unfolding y_def using px xlow by (intro fl64_rel) linarith
  have yx: "\<bar>y - x\<bar> \<le> 4 / 1000000000000000 * x"
    using yp px xlow by linarith
  have xw: "x = real (L * T) * w" by (simp add: x_def w_def)
  have "x \<le> 100000000000000 * w"
    unfolding xw using LTle w by (intro mult_right_mono) simp_all
  with yx have "\<bar>y - x\<bar> \<le> 4/10 * w" by linarith
  then show ?thesis by (simp add: y_def p_def d_def q_def x_def w_def)
qed

lemma round_quotient: "0 < M \<Longrightarrow> round (real N / real M) = int ((2 * N + M) div (2 * M))"
proof -
  assume M: "0 < M"
  have "real N / real M + 1/2 = real (2 * N + M) / real (2 * M)"
    using M by (simp add: field_simps)
  then have "round (real N / real M) = \<lfloor>real (2 * N + M) / real (2 * M)\<rfloor>"
    by (simp only: round_def)
  then show ?thesis by (simp only: floor_divide_of_nat_eq)
qed

lemma targetLength_bounds:
  assumes "0 < sampleRate b" and "sampleRate b \<le> 10 ^ 14" and "frames b * 16000 \<le> 10 ^ 14"
  shows "round (real (frames b * 16000) / real (sampleRate b)) - 1 \<le> targetLength b"
    and "targetLength b \<le> round (real (frames b * 16000) / real (sampleRate b))"
proof -
  define N where "N = frames b * 16000"
  define M where "M = sampleRate b"
  define y where "y = fl64 (fl64 (real (frames b) / real M) * real (16000::nat))"
  have M: "0 < M" "0 < 2 * M" using assms(1) by (simp_all add: M_def)
  have "\<bar>y - real N / real M\<bar> \<le> 4/10 / real M"
    unfolding y_def N_def M_def using assms by (intro target_product_error) simp_all
  moreover have "real (2 * N + M) / real (2 * M) = real N / real M + 1/2"
    using M by (simp add: field_simps)
  ultimately have "\<bar>(y + 1/2) - real (2 * N + M) / real (2 * M)\<bar> \<le> 8/10 / real (2 * M)"
    by simp
  note fl = floor_near_quotient(1,2) [OF M(2) this]
  have t: "targetLength b = \<lfloor>y + 1/2\<rfloor>"
    by (simp add: targetLength_def duration_def TARGET_SAMPLE_RATE_def round_def y_def M_def)
  from fl show "round (real (frames b * 16000) / real (sampleRate b)) - 1 \<le> targetLength b"
    and "targetLength b \<le> round (real (frames b * 16000) / real (sampleRate b))"
    unfolding t round_quotient [OF M(1)] N_def [symmetric] M_def [symmetric] by simp_all
qed

text \<open>Some exact roundings.\<close>

lemma fl64_2: "fl64 2 = 2"
  by (subst fl64_eval [where e = 1 and n = 4503599627370496])
    (simp_all add: powr_neg_numeral)

lemma fl64_3: "fl64 3 = 3"
  by (subst fl64_eval [where e = 1 and n = 6755399441055744])
    (simp_all add: powr_neg_numeral)

lemma fl64_two_thirds: "fl64 (2/3) = 6004799503160661/9007199254740992"
  by (subst fl64_eval [where e = "- 1" and n = 6004799503160661])
    (simp_all add: powr_neg_numeral)

text \<open>
  Two frames at 48 kHz: the duration \<open>2 / 48000\<close> as a double, and its product with
  16000.
\<close>

lemma fl64_duration_48k: "fl64 (2/48000) = 6148914691236517/147573952589676412928"
  by (subst fl64_eval [where e = "- 15" and n = 6148914691236517])
    (simp_all add: powr_neg_numeral)

lemma fl64_product_48k:
  "fl64 (6148914691236517/147573952589676412928 * 16000) = 6004799503160661/9007199254740992"
  by (subst fl64_eval [where e = "- 1" and n = 6004799503160661])
    (simp_all add: powr_neg_numeral)

text \<open>
  The rounding of the doubles shows in both lengths. For 1001 frames at 32 kHz the exact
  \<open>D * 16000\<close> is 500.5, which rounds to 501, but the product of the doubles is
  500.49999999999994 and \<^verbatim>\<open>Math.round\<close> gives 500. For 3075 frames at 3075 Hz the
  exact \<open>L * T / Fs\<close> is 16000, but the quotient of the doubles is 15999.999999999998 and
  \<^verbatim>\<open>Math.floor\<close> gives 15999.
\<close>

lemma fl64_duration_1001: "fl64 (1001/32000) = 2254051613498933/72057594037927936"
  by (subst fl64_eval [where e = "- 5" and n = 4508103226997866])
    (simp_all add: powr_neg_numeral)

lemma fl64_product_1001:
  "fl64 (2254051613498933/72057594037927936 * 16000) = 8804889115230207/17592186044416"
  by (subst fl64_eval [where e = 8 and n = 8804889115230207])
    (simp_all add: powr_neg_numeral)

lemma targetLength_1001_frames:
  "targetLength \<lparr>sampleRate = 32000, channels = [replicate 1001 0]\<rparr> = 500"
proof -
  have "targetLength \<lparr>sampleRate = 32000, channels = [replicate 1001 0]\<rparr>
          = round (fl64 (fl64 (1001/32000) * 16000))"
    by (simp add: targetLength_def duration_def frames_def TARGET_SAMPLE_RATE_def)
  then show ?thesis
    by (simp only: fl64_duration_1001 fl64_product_1001) (simp add: round_def)
qed

lemma fl64_ratio_3075: "fl64 (3075/16000) = 3462142213541069/18014398509481984"
  by (subst fl64_eval [where e = "- 3" and n = 6924284427082138])
    (simp_all add: powr_neg_numeral)

lemma fl64_quotient_3075:
  "fl64 (3075 / (3462142213541069/18014398509481984)) = 8796093022207999/549755813888"
  by (subst fl64_eval [where e = 13 and n = 8796093022207999])
    (simp_all add: powr_neg_numeral)

lemma resampleManually_3075_frames:
  "\<exists>r. resampleManually \<lparr>sampleRate = 3075, channels = [replicate 3075 0]\<rparr> 16000 = Some r
        \<and> length r = 15999"
proof -
  have wf: "wf_buffer \<lparr>sampleRate = 3075, channels = [replicate 3075 0]\<rparr>"
    by (simp add: wf_buffer_def frames_def)
  have "nat \<lfloor>fl64 (3075 / fl64 (3075/16000))\<rfloor> = 15999"
    by (simp only: fl64_ratio_3075 fl64_quotient_3075) simp
  with length_resampleManually [OF wf, of 16000] show ?thesis
    by (simp add: frames_def)
qed

text \<open>
  C6 as stated fails on both paths. On the fallback path: two frames at 48 kHz last
  1/24000 s, and \<open>round (D * 16000) = round (2/3) = 1\<close> (the offline rendering is created
  with one frame), but \<^verbatim>\<open>resampleManually\<close> allocates \<^verbatim>\<open>Math.floor(2 / 3) = 0\<close> samples.
  On the high-quality path: 1001 frames at 32 kHz last 0.03128125 s, and
  \<open>round (D * 16000) = round 500.5 = 501\<close>, but the rendering is created with
  \<^verbatim>\<open>Math.round(500.49999999999994) = 500\<close> frames, and a platform that renders the frames
  it was asked for returns 500 samples.
\<close>

theorem resampleManually_length_counterexample:
  "resampleManually \<lparr>sampleRate = 48000, channels = [[1/2, 1/2]]\<rparr> TARGET_SAMPLE_RATE = Some []
   \<and> targetLength \<lparr>sampleRate = 48000, channels = [[1/2, 1/2]]\<rparr> = 1
   \<and> round ((2::real) / 48000 * 16000) = 1
   \<and> targetLength \<lparr>sampleRate = 32000, channels = [replicate 1001 0]\<rparr> = 500
   \<and> resampleWithOfflineContext (\<lambda>b n. if 0 < n then Some (replicate (nat n) 0) else None)
         \<lparr>sampleRate = 32000, channels = [replicate 1001 0]\<rparr> = Some (replicate 500 0)
   \<and> round ((1001::real) / 32000 * 16000) = 501"
proof -
  have "resampleManually \<lparr>sampleRate = 48000, channels = [[1/2, 1/2]]\<rparr> TARGET_SAMPLE_RATE = Some []"
    by (simp add: resampleManually_def monoData_def numberOfChannels_def getChannelData_def
        TARGET_SAMPLE_RATE_def fl64_3 fl64_two_thirds)
  moreover have "targetLength \<lparr>sampleRate = 48000, channels = [[1/2, 1/2]]\<rparr>
                   = round (fl64 (fl64 (2/48000) * 16000))"
    by (simp add: targetLength_def duration_def frames_def TARGET_SAMPLE_RATE_def)
  then have "targetLength \<lparr>sampleRate = 48000, channels = [[1/2, 1/2]]\<rparr> = 1"
    by (simp only: fl64_duration_48k fl64_product_48k) (simp add: round_def)
  moreover have "round ((2::real) / 48000 * 16000) = 1"
    by (simp add: round_def)
  moreover note targetLength_1001_frames
  moreover have "resampleWithOfflineContext (\<lambda>b n. if 0 < n then Some (replicate (nat n) 0) else None)
         \<lparr>sampleRate = 32000, channels = [replicate 1001 0]\<rparr> = Some (replicate 500 0)"
    by (simp add: resampleWithOfflineContext_def targetLength_1001_frames)
  moreover have "round ((1001::real) / 32000 * 16000) = 501"
    by (simp add: round_def)
  ultimately show ?thesis by blast
qed

text \<open>
  C6, amended. The offline rendering is created with
  \<^verbatim>\<open>Math.round(audioBuffer.duration * 16000)\<close> frames of one channel, the duration being
  the double \<open>L / Fs\<close> and the product a double (\<open>L\<close> the number of frames, \<open>Fs\<close> the
  source rate); the platform renders exactly the frames it was created with, so that on
  the high-quality path the output has that length, which is \<open>round (L * 16000 / Fs)\<close> or
  one less. The fallback \<^verbatim>\<open>resampleManually\<close> returns one channel of \<open>L\<close> samples when
  the rates are equal and of \<^verbatim>\<open>Math.floor(L / (Fs / T))\<close> samples otherwise, computed in
  doubles: that is \<open>floor (L * T / Fs)\<close>, or one less when \<open>Fs\<close> divides \<open>L * T\<close>. (The
  bounds are for buffers with \<open>L * T\<close>, \<open>L * 16000\<close> and \<open>Fs\<close> up to \<open>10\<^sup>1\<^sup>4\<close>.)
\<close>

theorem resampleManually_length:
  assumes "wf_buffer b" and "0 < target"
    and "sampleRate b \<le> 10 ^ 14" and "frames b * target \<le> 10 ^ 14"
    and "frames b * 16000 \<le> 10 ^ 14"
    and "\<And>n r. startRendering b n = Some r \<Longrightarrow> int (length r) = n"
  shows "targetLength b = round (fl64 (fl64 (real (frames b) / real (sampleRate b)) * 16000))
       \<and> round (real (frames b * 16000) / real (sampleRate b)) - 1 \<le> targetLength b
       \<and> targetLength b \<le> round (real (frames b * 16000) / real (sampleRate b))
       \<and> (\<forall>r. resampleWithOfflineContext startRendering b = Some r \<longrightarrow> int (length r) = targetLength b)
       \<and> (\<forall>r. resampleTo16kHzMono argLimit startRendering b = Some r \<longrightarrow>
              int (length r) = targetLength b)
       \<and> (\<exists>r. resampleManually b target = Some r
              \<and> length r = (if sampleRate b = target then frames b
                            else nat \<lfloor>fl64 (real (frames b) / fl64 (real (sampleRate b) / real target))\<rfloor>)
              \<and> frames b * target div sampleRate b - 1 \<le> length r
              \<and> length r \<le> frames b * target div sampleRate b
              \<and> (\<not> sampleRate b dvd frames b * target \<longrightarrow>
                    length r = frames b * target div sampleRate b))"
proof -
  from assms(1) have fs: "0 < sampleRate b" by (simp add: wf_buffer_def)
  have t: "targetLength b = round (fl64 (fl64 (real (frames b) / real (sampleRate b)) * 16000))"
    by (simp add: targetLength_def duration_def TARGET_SAMPLE_RATE_def)
  note tb = targetLength_bounds [OF fs assms(3) assms(5)]
  have hq: "int (length r) = targetLength b" if "resampleWithOfflineContext startRendering b = Some r" for r
    using that assms(6) by (simp add: resampleWithOfflineContext_def)
  have hq_main: "int (length r) = targetLength b"
    if "resampleTo16kHzMono argLimit startRendering b = Some r" for r
  proof -
    from that obtain rendered where r: "startRendering b (targetLength b) = Some rendered"
      and n: "normalizeAudio_main argLimit rendered = Some r"
      by (auto simp: resampleTo16kHzMono_def split: option.splits)
    from length_normalizeAudio_main [OF n] assms(6) [OF r] show ?thesis by simp
  qed
  from length_resampleManually [OF assms(1), of target] obtain r
    where r: "resampleManually b target = Some r"
      and len: "length r = (if sampleRate b = target then frames b
                            else nat \<lfloor>fl64 (real (frames b) / fl64 (real (sampleRate b) / real target))\<rfloor>)"
    by blast
  have bounds: "frames b * target div sampleRate b - 1 \<le> length r
              \<and> length r \<le> frames b * target div sampleRate b
              \<and> (\<not> sampleRate b dvd frames b * target \<longrightarrow>
                    length r = frames b * target div sampleRate b)"
  proof (cases "sampleRate b = target")
    case True
    with len fs show ?thesis by simp
  next
    case False
    define y where "y = fl64 (real (frames b) / fl64 (real (sampleRate b) / real target))"
    have l: "length r = nat \<lfloor>y\<rfloor>" using len False by (simp add: y_def)
    have "\<bar>y - real (frames b * target) / real (sampleRate b)\<bar> \<le> 8/10 / real (sampleRate b)"
      unfolding y_def using fs assms(3) assms(2) assms(4) by (rule fallback_quotient_error)
    note fl = floor_near_quotient [OF fs this]
    from fl(1) have "frames b * target div sampleRate b - 1 \<le> nat \<lfloor>y\<rfloor>" by linarith
    moreover from fl(2) have "nat \<lfloor>y\<rfloor> \<le> frames b * target div sampleRate b" by linarith
    moreover have "nat \<lfloor>y\<rfloor> = frames b * target div sampleRate b"
      if "\<not> sampleRate b dvd frames b * target"
      using fl(3) [OF that] by simp
    ultimately show ?thesis unfolding l by blast
  qed
  from t tb hq hq_main r len bounds show ?thesis by blast
qed

theorem resampleManually_length_witness:
  "wf_buffer \<lparr>sampleRate = 32000, channels = [[0, 1/2, 1, 1/2]]\<rparr> \<and> (0::nat) < 16000
   \<and> sampleRate \<lparr>sampleRate = 32000, channels = [[0, 1/2, 1, 1/2]]\<rparr> \<le> 10 ^ 14
   \<and> frames \<lparr>sampleRate = 32000, channels = [[0, 1/2, 1, 1/2]]\<rparr> * 16000 \<le> 10 ^ 14
   \<and> targetLength \<lparr>sampleRate = 32000, channels = [[0, 1/2, 1, 1/2]]\<rparr> = 2
   \<and> resampleWithOfflineContext (\<lambda>b n. if 0 < n then Some (replicate (nat n) 0) else None)
         \<lparr>sampleRate = 32000, channels = [[0, 1/2, 1, 1/2]]\<rparr> = Some [0, 0]
   \<and> resampleTo16kHzMono 65536 (\<lambda>b n. if 0 < n then Some (replicate (nat n) 0) else None)
         \<lparr>sampleRate = 32000, channels = [[0, 1/2, 1, 1/2]]\<rparr> = Some [0, 0]
   \<and> (\<exists>r. resampleManually \<lparr>sampleRate = 32000, channels = [[0, 1/2, 1, 1/2]]\<rparr> 16000 = Some r
          \<and> length r = 2)
   \<and> wf_buffer \<lparr>sampleRate = 48000, channels = [[0, 1/2, 1, 1/2]]\<rparr>
   \<and> \<not> sampleRate \<lparr>sampleRate = 48000, channels = [[0, 1/2, 1, 1/2]]\<rparr>
           dvd frames \<lparr>sampleRate = 48000, channels = [[0, 1/2, 1, 1/2]]\<rparr> * 16000
   \<and> (\<exists>r. resampleManually \<lparr>sampleRate = 48000, channels = [[0, 1/2, 1, 1/2]]\<rparr> 16000 = Some r
          \<and> length r = 1)"
proof -
  let ?b = "\<lparr>sampleRate = 32000, channels = [[0, 1/2, 1, 1/2 :: real]]\<rparr>"
  let ?c = "\<lparr>sampleRate = 48000, channels = [[0, 1/2, 1, 1/2 :: real]]\<rparr>"
  let ?sr = "\<lambda>(b::audioBuffer) (n::int). if 0 < n then Some (replicate (nat n) (0::real)) else None"
  have wf: "wf_buffer ?b"
    by (simp add: wf_buffer_def frames_def)
  have pos: "(0::nat) < 16000" by simp
  have h1: "sampleRate ?b \<le> 10 ^ 14" by simp
  have h2: "frames ?b * 16000 \<le> 10 ^ 14" by (simp add: frames_def)
  have contract: "int (length r) = n" if "?sr b n = Some r" for b n r
    using that by (auto split: if_splits)
  have d: "fl64 (4/32000) = 1152921504606847/9223372036854775808"
    by (subst fl64_eval [where e = "- 13" and n = 4611686018427388])
      (simp_all add: powr_neg_numeral)
  have p: "fl64 (1152921504606847/9223372036854775808 * 16000) = 2"
    by (subst fl64_eval [where e = 1 and n = 4503599627370496])
      (simp_all add: powr_neg_numeral)
  have "targetLength ?b = round (fl64 (fl64 (4/32000) * 16000))"
    by (simp add: targetLength_def duration_def frames_def TARGET_SAMPLE_RATE_def)
  then have t: "targetLength ?b = 2"
    by (simp only: d p) simp
  have hq: "resampleWithOfflineContext ?sr ?b = Some [0, 0]"
    by (simp add: resampleWithOfflineContext_def t numeral_2_eq_2)
  have hq_main: "resampleTo16kHzMono 65536 ?sr ?b = Some [0, 0]"
    by (simp add: resampleTo16kHzMono_def t numeral_2_eq_2 normalizeAudio_main_def
        maxAmplitude_def fl64_tenth fl64_thousandth)
  have q: "nat \<lfloor>fl64 (real (frames ?b) / fl64 (real (sampleRate ?b) / real (16000::nat)))\<rfloor> = 2"
    by (simp add: frames_def fl64_2)
  from resampleManually_length [where b = ?b and target = 16000 and startRendering = ?sr
      and argLimit = 65536, OF wf pos h1 h2 h2 contract]
  have fb: "\<exists>r. resampleManually ?b 16000 = Some r \<and> length r = 2"
    unfolding q by auto
  have wf': "wf_buffer ?c"
    by (simp add: wf_buffer_def frames_def)
  have h1': "sampleRate ?c \<le> 10 ^ 14" by simp
  have h2': "frames ?c * 16000 \<le> 10 ^ 14" by (simp add: frames_def)
  have nd: "\<not> sampleRate ?c dvd frames ?c * 16000"
    by (simp add: frames_def)
  have dv: "frames ?c * 16000 div sampleRate ?c = 1"
    by (simp add: frames_def)
  from resampleManually_length [where b = ?c and target = 16000 and startRendering = ?sr
      and argLimit = 65536, OF wf' pos h1' h2' h2' contract] nd
  have fc: "\<exists>r. resampleManually ?c 16000 = Some r \<and> length r = 1"
    unfolding dv by blast
  from wf pos h1 h2 t hq hq_main fb wf' nd fc show ?thesis by blast
qed

lemma monoData_stereo:
  assumes "channels b = [a, c]"
  shows "monoData b = Some (map (\<lambda>i. (a ! i + c ! i) / 2) [0..<length a])"
  using assms by (simp add: monoData_def numberOfChannels_def getChannelData_def)

text \<open>
  C7 fails in the code for more than two channels: \<^verbatim>\<open>resampleManually\<close> averages channels
  0 and 1 only. For the three one-frame channels 0, 0 and 3 the mean is 1, and the mono
  sample computed is 0. (For two channels the sample is \<open>(a_i + b_i) / 2\<close>, lemma
  \<open>monoData_stereo\<close>, and the downmix comes before the rate conversion.)
\<close>

theorem monoData_three_channels:
  "monoData \<lparr>sampleRate = 16000, channels = [[0], [0], [3]]\<rparr> = Some [0]
   \<and> resampleManually \<lparr>sampleRate = 16000, channels = [[0], [0], [3]]\<rparr> TARGET_SAMPLE_RATE = Some [0]
   \<and> ((0 + 0 + 3) / 3 :: real) = 1"
  by (simp add: resampleManually_def monoData_def numberOfChannels_def getChannelData_def
      TARGET_SAMPLE_RATE_def)

subsection \<open>The silence gate\<close>












section \<open>Properties of the hallucination filters\<close>

subsection \<open>What a match of the phrase-loop pattern is\<close>

lemma drop_pred_Cons: "w \<noteq> [] \<Longrightarrow> drop (length w - 1) cs = drop (length w) (c # cs)"
  by (cases w) simp_all

lemma countCopies_take:
  "take (length w * countCopies w s) s = concat (replicate (countCopies w s) w)"
proof (induction w s rule: countCopies.induct)
  case (1 w)
  show ?case by simp
next
  case (2 w c cs)
  show ?case
  proof (cases "w \<noteq> [] \<and> startsWith (c # cs) w")
    case False
    then show ?thesis by auto
  next
    case True
    let ?rest = "drop (length w) (c # cs)"
    from True have d: "drop (length w - 1) cs = ?rest" by (intro drop_pred_Cons) simp
    from True have cc: "countCopies w (c # cs) = Suc (countCopies w ?rest)"
      using d by simp
    from True have tk: "take (length w) (c # cs) = w" by (simp add: startsWith_def)
    have ih: "take (length w * countCopies w ?rest) ?rest = concat (replicate (countCopies w ?rest) w)"
      using "2.IH" True d by simp
    have "take (length w * Suc (countCopies w ?rest)) (c # cs)
            = take (length w) (c # cs) @ take (length w * countCopies w ?rest) ?rest"
      by (simp add: take_add)
    with tk ih cc show ?thesis by simp
  qed
qed

lemma length_concat_replicate: "length (concat (replicate n w)) = length w * n"
  by (induction n) simp_all

lemma countCopies_length: "length w * countCopies w s \<le> length s"
proof -
  have "length (concat (replicate (countCopies w s) w)) = length w * countCopies w s"
    by (rule length_concat_replicate)
  then have "length (take (length w * countCopies w s) s) = length w * countCopies w s"
    by (simp only: countCopies_take)
  then show ?thesis by simp
qed

lemma find_SomeD: "find P xs = Some x \<Longrightarrow> x \<in> set xs \<and> P x"
  by (induction xs) (auto split: if_splits)

lemma find_upt_rev_Some:
  assumes "find P (rev [lo..<Suc hi]) = Some k"
  shows "lo \<le> k \<and> k \<le> hi \<and> P k"
proof -
  from find_SomeD [OF assms] have "k \<in> set (rev [lo..<Suc hi])" and "P k"
    by blast+
  then show ?thesis by (simp only: set_rev set_upt atLeastLessThan_iff less_Suc_eq_le)
qed

lemma loopAt_sound:
  assumes "loopAt lo hi s = Some (k, l)" and "0 < lo"
  shows "lo \<le> k \<and> k \<le> hi \<and> 3 * k \<le> l \<and> l \<le> length s \<and> k dvd l
         \<and> take l s = concat (replicate (l div k) (take k s))
         \<and> (\<forall>c \<in> set (take k s). \<not> isLineTerminator c)"
proof -
  let ?d = "length (takeWhile (\<lambda>c. \<not> isLineTerminator c) s)"
  let ?n = "countCopies (take k s) (drop k s)"
  from assms(1) have f: "find (\<lambda>k. 2 \<le> countCopies (take k s) (drop k s)) (rev [lo..<Suc (min hi ?d)]) = Some k"
    and l: "l = k * (1 + ?n)"
    by (auto simp del: upt_Suc simp: loopAt_def Let_def split: option.splits)
  from find_upt_rev_Some [OF f] have k: "lo \<le> k" "k \<le> hi" "k \<le> ?d" and two: "2 \<le> ?n"
    by auto
  have "?d \<le> length s" by (rule length_takeWhile_le)
  with k have ks: "k \<le> length s" by simp
  then have lk: "length (take k s) = k" by simp
  from assms(2) k have kpos: "0 < k" by simp
  have "k * 2 \<le> k * ?n" using two by (rule mult_le_mono2)
  then have three: "3 * k \<le> l" using l by (simp add: algebra_simps)
  have "length (take k s) * ?n \<le> length (drop k s)" by (rule countCopies_length)
  with lk ks have ll: "l \<le> length s" using l by (simp add: algebra_simps)
  have dv: "k dvd l" using l by simp
  have q: "l div k = 1 + ?n" using l kpos by simp
  have "take l s = take k s @ take (k * ?n) (drop k s)"
    using l by (simp add: take_add)
  also have "take (k * ?n) (drop k s) = concat (replicate ?n (take k s))"
    using countCopies_take [of "take k s" "drop k s"] lk by simp
  finally have tk: "take l s = concat (replicate (l div k) (take k s))"
    using q by simp
  have "take k s = take k (takeWhile (\<lambda>c. \<not> isLineTerminator c) s)"
    using k(3) by (metis takeWhile_eq_take take_take min.absorb1)
  then have "set (take k s) \<subseteq> set (takeWhile (\<lambda>c. \<not> isLineTerminator c) s)"
    by (metis set_take_subset)
  then have nl: "\<forall>c \<in> set (take k s). \<not> isLineTerminator c"
    by (auto dest: set_takeWhileD)
  from k three ll dv tk nl show ?thesis by blast
qed

lemma loopSearch_sound:
  assumes "loopSearch lo hi s = Some (p, k, l)"
  shows "p \<le> length s \<and> loopAt lo hi (drop p s) = Some (k, l)
         \<and> (\<forall>q < p. loopAt lo hi (drop q s) = None)"
  using assms
proof (induction s arbitrary: p)
  case Nil
  then show ?case by simp
next
  case (Cons c cs)
  show ?case
  proof (cases "loopAt lo hi (c # cs)")
    case (Some kl)
    with Cons.prems show ?thesis by (auto split: prod.splits)
  next
    case None
    with Cons.prems obtain p' where p': "loopSearch lo hi cs = Some (p', k, l)" "p = Suc p'"
      by (auto split: option.splits prod.splits)
    from Cons.IH [OF p'(1)] have ih: "p' \<le> length cs" "loopAt lo hi (drop p' cs) = Some (k, l)"
      "\<forall>q < p'. loopAt lo hi (drop q cs) = None" by auto
    have "\<forall>q < p. loopAt lo hi (drop q (c # cs)) = None"
    proof (intro allI impI)
      fix q assume "q < p"
      show "loopAt lo hi (drop q (c # cs)) = None"
      proof (cases q)
        case 0
        with None show ?thesis by simp
      next
        case (Suc q')
        with \<open>q < p\<close> p'(2) have "q' < p'" by simp
        with ih(3) Suc show ?thesis by simp
      qed
    qed
    with ih p'(2) show ?thesis by simp
  qed
qed


text \<open>Texts with a period: the copies of a phrase are counted to the end.\<close>

lemma nth_concat_replicate:
  "i < r * length w \<Longrightarrow> concat (replicate r w) ! i = w ! (i mod length w)"
proof (induction r arbitrary: i)
  case 0
  then show ?case by simp
next
  case (Suc r)
  show ?case
  proof (cases "i < length w")
    case True
    then show ?thesis by (simp add: nth_append)
  next
    case False
    then have ge: "length w \<le> i" by simp
    with Suc.prems have "i - length w < r * length w" by simp
    from Suc.IH [OF this] have "concat (replicate r w) ! (i - length w) = w ! ((i - length w) mod length w)" .
    moreover have "(i - length w) mod length w = i mod length w"
      using ge by (simp add: le_mod_geq)
    ultimately show ?thesis using False by (simp add: nth_append)
  qed
qed

lemma countCopies_periodic:
  assumes "w \<noteq> []" and "\<forall>i < length t. t ! i = w ! (i mod length w)"
  shows "countCopies w t = length t div length w"
  using assms
proof (induction w t rule: countCopies.induct)
  case (1 w)
  show ?case by simp
next
  case (2 w c cs)
  let ?t = "c # cs"
  note ne = "2.prems"(1)
  note per = "2.prems"(2)
  show ?case
  proof (cases "length w \<le> length ?t")
    case False
    have "take (length w) ?t \<noteq> w"
    proof
      assume "take (length w) ?t = w"
      then have "length (take (length w) ?t) = length w" by (rule arg_cong)
      with False show False by simp
    qed
    then have "\<not> startsWith ?t w" by (simp only: startsWith_def not_False_eq_True)
    then have "countCopies w ?t = 0" by simp
    moreover from False have "length ?t div length w = 0" by simp
    ultimately show ?thesis by (simp only:)
  next
    case True
    have "take (length w) ?t = w"
    proof (rule nth_equalityI)
      show "length (take (length w) ?t) = length w" using True by simp
    next
      fix i assume "i < length (take (length w) ?t)"
      with True have i: "i < length w" by simp
      with True have "i < length ?t" by simp
      with per have "?t ! i = w ! (i mod length w)" by blast
      with i show "take (length w) ?t ! i = w ! i" by simp
    qed
    then have sw: "startsWith ?t w" by (simp only: startsWith_def)
    from ne have d: "drop (length w - 1) cs = drop (length w) ?t"
      by (intro drop_pred_Cons)
    have per': "\<forall>i < length (drop (length w - 1) cs). drop (length w - 1) cs ! i = w ! (i mod length w)"
      unfolding d
    proof (intro allI impI)
      fix i assume "i < length (drop (length w) ?t)"
      then have lt: "length w + i < length ?t" by simp
      with per have "?t ! (length w + i) = w ! ((length w + i) mod length w)" by blast
      moreover have "(length w + i) mod length w = i mod length w" by simp
      moreover have "drop (length w) ?t ! i = ?t ! (length w + i)"
        using True by (intro nth_drop)
      ultimately show "drop (length w) ?t ! i = w ! (i mod length w)" by (simp only:)
    qed
    from ne sw have cond: "w \<noteq> [] \<and> startsWith ?t w" by blast
    have ih: "countCopies w (drop (length w - 1) cs) = length (drop (length w - 1) cs) div length w"
      by (rule "2.IH" [OF cond ne per'])
    have "countCopies w ?t = Suc (countCopies w (drop (length w - 1) cs))"
      using cond by simp
    also have "\<dots> = Suc (length (drop (length w - 1) cs) div length w)"
      by (simp only: ih)
    also have "\<dots> = Suc ((length ?t - length w) div length w)"
      by (simp only: d length_drop)
    also have "\<dots> = length ?t div length w"
      using True ne by (simp add: le_div_geq)
    finally show ?thesis .
  qed
qed

lemma find_rev_upt_max:
  assumes "lo \<le> j" and "j \<le> hi" and "P j"
  shows "\<exists>k. find P (rev [lo..<Suc hi]) = Some k \<and> j \<le> k"
  using assms
proof (induction hi)
  case 0
  then show ?case by simp
next
  case (Suc hi)
  show ?case
  proof (cases "P (Suc hi)")
    case True
    with Suc.prems show ?thesis by simp
  next
    case False
    with Suc.prems have "j \<noteq> Suc hi" by auto
    with Suc.prems have "j \<le> hi" by simp
    from Suc.IH [OF Suc.prems(1) this Suc.prems(3)] obtain k
      where "find P (rev [lo..<Suc hi]) = Some k" "j \<le> k" by blast
    with False Suc.prems show ?thesis by simp
  qed
qed

lemma periodic_mod:
  assumes "\<forall>i. i + k < length s \<longrightarrow> s ! (i + k) = s ! i" and "j < length s"
  shows "s ! j = s ! (j mod k)"
  using assms(2)
proof (induction j rule: less_induct)
  case (less j)
  show ?case
  proof (cases "j < k")
    case True
    then show ?thesis by simp
  next
    case False
    then have ge: "k \<le> j" by simp
    show ?thesis
    proof (cases "k = 0")
      case True
      then show ?thesis by simp
    next
      case False
      with ge have lt: "j - k < j" by simp
      from less.prems have "j - k < length s" by simp
      from less.IH [OF lt this] have "s ! (j - k) = s ! ((j - k) mod k)" .
      moreover have "(j - k) mod k = j mod k" using ge by (simp add: le_mod_geq)
      moreover have "s ! j = s ! (j - k)"
        using assms(1) [rule_format, of "j - k"] ge less.prems by simp
      ultimately show ?thesis by simp
    qed
  qed
qed

subsection \<open>Evaluating the filters stage by stage\<close>

lemmas class_defs = isLineTerminator_def isWhiteSpace_def isDigit_def isWordSep_def isLoopSep_def
  isSentenceEnd_def isTrailer_def isKana_def isLeadingJunk_def

lemma cleanText_stages:
  assumes "s \<noteq> []" and "\<not> hasRepetitionLoop s"
    and "collapseNoise s = c2" and "foldl dropSentences c2 blacklistWords = c3"
    and "\<not> blacklistOnly c3"
    and "loopSquash 2 15 c3 = c4a" and "wordLoopSquash c4a = c4"
    and "\<not> list_ex (\<lambda>pattern. pattern (trim c4)) noisePatterns"
    and "finalCleanup c4 = c6"
  shows "cleanText s = (if length c6 < 3 then [] else c6)"
  using assms by (simp add: cleanText_def Let_def)

lemma filterHallucinations_stages:
  assumes "s \<noteq> []" and "squashOrReject s = Some c1"
    and "\<not> list_ex (\<lambda>w. trim c1 = w \<or> trim c1 = w @ [0x3002]) HALLUCINATION_WORDS"
    and "foldl dropSentences c1 HALLUCINATION_WORDS = c2"
    and "collapseNoise_groq c2 = c3" and "trim c3 = c4"
  shows "filterHallucinations s = (if length c4 \<le> 2 then [] else c4)"
  using assms by (simp add: filterHallucinations_def Let_def)

text \<open>The repeated phrase: the pattern matches the whole of \<open>ex_loop\<close>.\<close>

lemma ex_loop_search: "loopSearch 3 20 ex_loop = Some (0, 4, 16)"
  by (simp add: ex_loop_def loopAt_def startsWith_def isLineTerminator_def)

text \<open>Two loops: the first match is the shorter loop, nine units of twenty-one.\<close>

lemma two_loops_units:
  "ex_two_loops = [97, 98, 99, 97, 98, 99, 97, 98, 99,
                   120, 121, 122, 120, 121, 122, 120, 121, 122, 120, 121, 122]"
  by (simp add: ex_two_loops_def ascii_def)

lemma two_loops_search: "loopSearch 3 20 ex_two_loops = Some (0, 3, 9)"
  unfolding two_loops_units by (simp add: loopAt_def startsWith_def isLineTerminator_def)

lemma two_loops_no_loop: "\<not> hasRepetitionLoop ex_two_loops"
  using two_loops_search unfolding hasRepetitionLoop_def phraseLoop_def
  by (simp add: two_loops_units wordLoop_def loopWords_def class_defs)

lemma two_loops_collapse: "collapseNoise ex_two_loops = ex_two_loops"
  unfolding two_loops_units by (simp add: collapseNoise_def flushRun_def class_defs)

lemma two_loops_blacklist: "foldl dropSentences ex_two_loops blacklistWords = ex_two_loops"
  unfolding two_loops_units
  by (simp add: blacklistWords_def dropSentences_def startsWith_def ascii_def)

lemma two_loops_only: "\<not> blacklistOnly ex_two_loops"
  unfolding two_loops_units
  by (simp add: blacklistOnly_def blacklistWords_def canonicalize_def ascii_def class_defs)

lemma two_loops_squash: "loopSquash 2 15 ex_two_loops = [97, 98, 99, 120, 121, 122]"
  unfolding two_loops_units by (simp add: loopAt_def startsWith_def isLineTerminator_def)

lemma abcxyz_words: "wordLoopSquash [97, 98, 99, 120, 121, 122] = [97, 98, 99, 120, 121, 122]"
  by (simp add: wordLoopAt_def wordTail_def sepWord_def class_defs)

lemma abcxyz_noise:
  "\<not> list_ex (\<lambda>pattern. pattern (trim [97, 98, 99, 120, 121, 122])) noisePatterns"
  by (simp add: noisePatterns_def trim_def class_defs)

lemma abcxyz_final: "finalCleanup [97, 98, 99, 120, 121, 122] = [97, 98, 99, 120, 121, 122]"
  by (simp add: finalCleanup_def trim_def class_defs)

lemma two_loops_clean: "cleanText ex_two_loops = [97, 98, 99, 120, 121, 122]"
proof -
  have "ex_two_loops \<noteq> []" by (simp add: two_loops_units)
  from cleanText_stages [OF this two_loops_no_loop two_loops_collapse two_loops_blacklist
      two_loops_only two_loops_squash abcxyz_words abcxyz_noise abcxyz_final]
  show ?thesis by simp
qed

text \<open>The blacklisted sentence.\<close>

lemma ex_blacklist_units:
  "ex_blacklist = [0x4ECA, 0x65E5, 0x306F, 0x4F1A, 0x8B70, 0x3067, 0x3057, 0x305F, 0x3002,
                   0x3054, 0x8996, 0x8074, 0x3042, 0x308A, 0x304C, 0x3068, 0x3046,
                   0x3054, 0x3056, 0x3044, 0x307E, 0x3057, 0x305F, 0x3002]"
  by (simp add: ex_blacklist_def ex_meeting_def ex_thanks_def)

lemma ex_blacklist_search: "loopSearch 3 20 ex_blacklist = None"
  unfolding ex_blacklist_units by (simp add: loopAt_def startsWith_def isLineTerminator_def)

lemma ex_blacklist_no_loop: "\<not> hasRepetitionLoop ex_blacklist"
  using ex_blacklist_search unfolding hasRepetitionLoop_def phraseLoop_def
  by (simp add: ex_blacklist_units wordLoop_def loopWords_def class_defs)

lemma ex_blacklist_collapse: "collapseNoise ex_blacklist = ex_blacklist"
  unfolding ex_blacklist_units by (simp add: collapseNoise_def flushRun_def class_defs)

lemma ex_blacklist_first: "dropSentences ex_blacklist ex_thanks = ex_meeting"
  unfolding ex_blacklist_units ex_thanks_def ex_meeting_def
  by (simp add: dropSentences_def startsWith_def stripMaru_def isSentenceEnd_def)

lemma ex_meeting_rest: "foldl dropSentences ex_meeting (tl blacklistWords) = ex_meeting"
  unfolding ex_meeting_def
  by (simp add: blacklistWords_def dropSentences_def startsWith_def ascii_def)

lemma ex_blacklist_words: "foldl dropSentences ex_blacklist blacklistWords = ex_meeting"
proof -
  have "blacklistWords = ex_thanks # tl blacklistWords"
    by (simp add: blacklistWords_def ex_thanks_def)
  then have "foldl dropSentences ex_blacklist blacklistWords
               = foldl dropSentences (dropSentences ex_blacklist ex_thanks) (tl blacklistWords)"
    by (metis foldl_Cons)
  then show ?thesis by (simp only: ex_blacklist_first ex_meeting_rest)
qed

lemma ex_meeting_only: "\<not> blacklistOnly ex_meeting"
  unfolding ex_meeting_def
  by (simp add: blacklistOnly_def blacklistWords_def canonicalize_def ascii_def class_defs)

lemma ex_meeting_squash: "loopSquash 2 15 ex_meeting = ex_meeting"
  unfolding ex_meeting_def by (simp add: loopAt_def startsWith_def isLineTerminator_def)

lemma ex_meeting_words: "wordLoopSquash ex_meeting = ex_meeting"
  unfolding ex_meeting_def by (simp add: wordLoopAt_def wordTail_def sepWord_def class_defs)

lemma ex_meeting_trim: "trim ex_meeting = ex_meeting"
  unfolding ex_meeting_def by (simp add: trim_def class_defs)

lemma ex_meeting_noise: "\<not> list_ex (\<lambda>pattern. pattern (trim ex_meeting)) noisePatterns"
  unfolding ex_meeting_trim unfolding ex_meeting_def
  by (simp add: noisePatterns_def class_defs)

lemma ex_meeting_final: "finalCleanup ex_meeting = ex_meeting"
  unfolding ex_meeting_def by (simp add: finalCleanup_def trim_def class_defs)

lemma ex_blacklist_clean: "cleanText ex_blacklist = ex_meeting"
proof -
  have "ex_blacklist \<noteq> []" by (simp add: ex_blacklist_units)
  from cleanText_stages [OF this ex_blacklist_no_loop ex_blacklist_collapse ex_blacklist_words
      ex_meeting_only ex_meeting_squash ex_meeting_words ex_meeting_noise ex_meeting_final]
  show ?thesis by (simp add: ex_meeting_def)
qed

lemma ex_blacklist_groq_first: "dropSentences ex_blacklist (HALLUCINATION_WORDS ! 2) = ex_meeting"
  unfolding ex_blacklist_units ex_meeting_def
  by (simp add: HALLUCINATION_WORDS_def dropSentences_def startsWith_def stripMaru_def
      isSentenceEnd_def)

lemma ex_blacklist_groq_words: "foldl dropSentences ex_blacklist HALLUCINATION_WORDS = ex_meeting"
proof -
  have split: "HALLUCINATION_WORDS
                 = take 2 HALLUCINATION_WORDS @ HALLUCINATION_WORDS ! 2 # drop 3 HALLUCINATION_WORDS"
    by (simp add: HALLUCINATION_WORDS_def)
  have before: "foldl dropSentences ex_blacklist (take 2 HALLUCINATION_WORDS) = ex_blacklist"
    unfolding ex_blacklist_units
    by (simp add: HALLUCINATION_WORDS_def dropSentences_def startsWith_def)
  have after: "foldl dropSentences ex_meeting (drop 3 HALLUCINATION_WORDS) = ex_meeting"
    unfolding ex_meeting_def
    by (simp add: HALLUCINATION_WORDS_def dropSentences_def startsWith_def ascii_def)
  have "foldl dropSentences ex_blacklist HALLUCINATION_WORDS
          = foldl dropSentences
              (dropSentences (foldl dropSentences ex_blacklist (take 2 HALLUCINATION_WORDS))
                 (HALLUCINATION_WORDS ! 2))
              (drop 3 HALLUCINATION_WORDS)"
    by (subst split) (simp only: foldl_append foldl_Cons)
  then show ?thesis by (simp only: before ex_blacklist_groq_first after)
qed

lemma ex_blacklist_groq: "filterHallucinations ex_blacklist = ex_meeting"
proof -
  have ne: "ex_blacklist \<noteq> []" by (simp add: ex_blacklist_units)
  have sq: "squashOrReject ex_blacklist = Some ex_blacklist"
    by (simp add: squashOrReject_def ex_blacklist_search)
  have alone: "\<not> list_ex (\<lambda>w. trim ex_blacklist = w \<or> trim ex_blacklist = w @ [0x3002])
                    HALLUCINATION_WORDS"
    unfolding ex_blacklist_units
    by (simp add: HALLUCINATION_WORDS_def trim_def ascii_def class_defs)
  have col: "collapseNoise_groq ex_meeting = ex_meeting"
    unfolding ex_meeting_def by (simp add: collapseNoise_groq_def flushRun_def class_defs)
  from filterHallucinations_stages [OF ne sq alone ex_blacklist_groq_words col ex_meeting_trim]
  show ?thesis by (simp add: ex_meeting_def)
qed

text \<open>The two short transcripts.\<close>

lemma short_pipeline:
  "finalCleanup (wordLoopSquash (loopSquash 2 15
     (foldl dropSentences (collapseNoise ex_short) blacklistWords))) = ex_short"
  unfolding ex_short_def
  by (simp add: collapseNoise_def flushRun_def blacklistWords_def dropSentences_def
      startsWith_def ascii_def loopAt_def wordLoopAt_def wordTail_def sepWord_def
      finalCleanup_def trim_def class_defs)

lemma ex_short_clean: "cleanText ex_short = []"
proof -
  have "length (finalCleanup (wordLoopSquash (loopSquash 2 15
          (foldl dropSentences (collapseNoise ex_short) blacklistWords)))) < 3"
    unfolding short_pipeline by (simp add: ex_short_def)
  then show ?thesis by (simp add: cleanText_def Let_def)
qed

lemma ex_short_groq: "filterHallucinations ex_short = []"
  unfolding ex_short_def
  by (simp add: filterHallucinations_def squashOrReject_def loopAt_def startsWith_def
      HALLUCINATION_WORDS_def dropSentences_def collapseNoise_groq_def flushRun_def
      trim_def ascii_def class_defs)

lemma ex_kaigichu_clean: "cleanText ex_kaigichu = ex_kaigichu"
proof -
  have ne: "ex_kaigichu \<noteq> []" by (simp add: ex_kaigichu_def)
  have nl: "\<not> hasRepetitionLoop ex_kaigichu"
    by (simp add: hasRepetitionLoop_def ex_kaigichu_def)
  have c2: "collapseNoise ex_kaigichu = ex_kaigichu"
    unfolding ex_kaigichu_def by (simp add: collapseNoise_def flushRun_def class_defs)
  have c3: "foldl dropSentences ex_kaigichu blacklistWords = ex_kaigichu"
    unfolding ex_kaigichu_def
    by (simp add: blacklistWords_def dropSentences_def startsWith_def ascii_def)
  have bo: "\<not> blacklistOnly ex_kaigichu"
    unfolding ex_kaigichu_def
    by (simp add: blacklistOnly_def blacklistWords_def canonicalize_def ascii_def class_defs)
  have c4a: "loopSquash 2 15 ex_kaigichu = ex_kaigichu"
    unfolding ex_kaigichu_def by (simp add: loopAt_def startsWith_def isLineTerminator_def)
  have c4: "wordLoopSquash ex_kaigichu = ex_kaigichu"
    unfolding ex_kaigichu_def by (simp add: wordLoopAt_def wordTail_def sepWord_def class_defs)
  have np: "\<not> list_ex (\<lambda>pattern. pattern (trim ex_kaigichu)) noisePatterns"
    unfolding ex_kaigichu_def by (simp add: noisePatterns_def trim_def class_defs)
  have c6: "finalCleanup ex_kaigichu = ex_kaigichu"
    unfolding ex_kaigichu_def by (simp add: finalCleanup_def trim_def class_defs)
  from cleanText_stages [OF ne nl c2 c3 bo c4a c4 np c6]
  show ?thesis by (simp add: ex_kaigichu_def)
qed

lemma ex_kaigichu_groq: "filterHallucinations ex_kaigichu = ex_kaigichu"
  unfolding ex_kaigichu_def
  by (simp add: filterHallucinations_def squashOrReject_def loopAt_def startsWith_def
      HALLUCINATION_WORDS_def dropSentences_def collapseNoise_groq_def flushRun_def
      trim_def ascii_def class_defs)

subsection \<open>Loop rejection\<close>

lemma phraseLoop_rejects:
  assumes "loopSearch 3 20 s = Some (p, k, l)" and "length s < 2 * l"
  shows "cleanText s = []"
proof -
  from loopSearch_sound [OF assms(1)] have p: "p \<le> length s"
    and at: "loopAt 3 20 (drop p s) = Some (k, l)" by blast+
  from loopAt_sound [OF at] have "3 \<le> k" "3 * k \<le> l" "l \<le> length (drop p s)" by simp_all
  then have "9 \<le> l" "l \<le> length s" by simp_all
  then have "\<not> length s < 6" by simp
  moreover have "phraseLoop s" using assms by (simp add: phraseLoop_def)
  ultimately have "hasRepetitionLoop s" by (auto simp: hasRepetitionLoop_def)
  then show ?thesis by (simp add: cleanText_def)
qed

text \<open>
  A text that is nothing but a phrase of 3 to 20 units without line terminator, written
  at least three times, is rejected: the matcher may group the repetition differently
  (a longer phrase first), but its match then runs to less than one phrase before the end.
\<close>

lemma whole_loop_rejected:
  assumes k3: "3 \<le> length w" and k20: "length w \<le> 20" and r3: "3 \<le> r"
    and nl: "\<forall>c \<in> set w. \<not> isLineTerminator c"
  shows "cleanText (concat (replicate r w)) = []"
proof -
  let ?s = "concat (replicate r w)"
  let ?k = "length w"
  let ?n = "length ?s"
  let ?P = "\<lambda>k. 2 \<le> countCopies (take k ?s) (drop k ?s)"
  from k3 have wne: "w \<noteq> []" by auto
  have n: "?n = ?k * r" by (rule length_concat_replicate)
  have kn: "?k \<le> ?n" using r3 n by simp
  have sform: "?s ! i = w ! (i mod ?k)" if "i < ?n" for i
    using that n by (intro nth_concat_replicate) (simp add: mult.commute)
  have "set ?s \<subseteq> set w" by auto
  with nl have "\<forall>c \<in> set ?s. \<not> isLineTerminator c" by blast
  then have tw: "takeWhile (\<lambda>c. \<not> isLineTerminator c) ?s = ?s"
    by simp
  have tk: "take ?k ?s = w"
  proof (rule nth_equalityI)
    show "length (take ?k ?s) = ?k" using kn by simp
  next
    fix i assume "i < length (take ?k ?s)"
    with kn have i: "i < ?k" by simp
    with kn have "i < ?n" by simp
    from sform [OF this] i show "take ?k ?s ! i = w ! i" by simp
  qed
  have "countCopies w (drop ?k ?s) = length (drop ?k ?s) div ?k"
  proof (rule countCopies_periodic [OF wne], intro allI impI)
    fix i assume "i < length (drop ?k ?s)"
    then have lt: "?k + i < ?n" by simp
    have "drop ?k ?s ! i = ?s ! (?k + i)" using kn by (intro nth_drop)
    also have "\<dots> = w ! ((?k + i) mod ?k)" by (rule sform [OF lt])
    also have "(?k + i) mod ?k = i mod ?k" by simp
    finally show "drop ?k ?s ! i = w ! (i mod ?k)" .
  qed
  also have "length (drop ?k ?s) = ?k * (r - 1)"
    using n by (simp add: right_diff_distrib')
  also have "?k * (r - 1) div ?k = r - 1" using wne by simp
  finally have "countCopies (take ?k ?s) (drop ?k ?s) = r - 1" by (simp only: tk)
  with r3 have Pk: "?P ?k" by simp
  have "?k \<le> min 20 ?n" using k20 kn by simp
  from find_rev_upt_max [of 3 ?k "min 20 ?n" ?P, OF k3 this Pk]
  obtain k' where f: "find ?P (rev [3..<Suc (min 20 ?n)]) = Some k'" and kk': "?k \<le> k'"
    by blast
  define l where "l = k' * (1 + countCopies (take k' ?s) (drop k' ?s))"
  have at: "loopAt 3 20 ?s = Some (k', l)"
    unfolding loopAt_def Let_def tw f l_def by simp
  from loopAt_sound [OF at] have k'3: "3 \<le> k'" and l3: "3 * k' \<le> l" and ln: "l \<le> ?n"
    and dv: "k' dvd l" and pre: "take l ?s = concat (replicate (l div k') (take k' ?s))"
    by simp_all
  from k'3 have k'pos: "0 < k'" by simp
  from l3 ln have k'n: "k' \<le> ?n" by simp
  have lk': "length (take k' ?s) = k'" using k'n by simp
  have prefix: "?s ! j = ?s ! (j mod k')" if "j < l" for j
  proof -
    from dv have "l div k' * k' = l" by simp
    with that lk' have "j < l div k' * length (take k' ?s)" by simp
    from nth_concat_replicate [OF this]
    have "concat (replicate (l div k') (take k' ?s)) ! j = take k' ?s ! (j mod k')"
      by (simp only: lk')
    with pre have "take l ?s ! j = take k' ?s ! (j mod k')" by (simp only:)
    moreover have "take l ?s ! j = ?s ! j" using that by simp
    moreover have "take k' ?s ! (j mod k') = ?s ! (j mod k')" using k'pos by simp
    ultimately show ?thesis by (simp only:)
  qed
  have step: "?s ! (i + k') = ?s ! i" if "i + k' < ?n" for i
  proof -
    let ?a = "i mod ?k"
    from wne have ak: "?a < ?k" by simp
    with kk' have ak': "?a < k'" by simp
    from ak kn have an: "?a < ?n" by simp
    from ak' l3 have al: "?a + k' < l" by simp
    with ln have an': "?a + k' < ?n" by simp
    from that have "i < ?n" by simp
    from sform [OF this] sform [OF an] have 1: "?s ! i = ?s ! ?a" by simp
    have "(i + k') mod ?k = (?a + k') mod ?k" by (simp add: mod_add_left_eq)
    with sform [OF that] sform [OF an'] have 2: "?s ! (i + k') = ?s ! (?a + k')" by simp
    from prefix [OF al] ak' have 3: "?s ! (?a + k') = ?s ! ?a" by simp
    from 1 2 3 show ?thesis by (simp only:)
  qed
  then have per: "\<forall>i. i + k' < ?n \<longrightarrow> ?s ! (i + k') = ?s ! i" by blast
  from lk' k'pos have "0 < length (take k' ?s)" by (simp only:)
  then have w'ne: "take k' ?s \<noteq> []" by (rule length_greater_0_conv [THEN iffD1])
  have "countCopies (take k' ?s) (drop k' ?s) = length (drop k' ?s) div length (take k' ?s)"
  proof (rule countCopies_periodic [OF w'ne], intro allI impI)
    fix i assume "i < length (drop k' ?s)"
    then have lt: "k' + i < ?n" by simp
    have "drop k' ?s ! i = ?s ! (k' + i)" using k'n by (intro nth_drop)
    also have "\<dots> = ?s ! ((k' + i) mod k')" by (rule periodic_mod [OF per lt])
    also have "(k' + i) mod k' = i mod k'" by simp
    also have "?s ! (i mod k') = take k' ?s ! (i mod k')" using k'pos by simp
    finally show "drop k' ?s ! i = take k' ?s ! (i mod length (take k' ?s))"
      by (simp only: lk')
  qed
  then have cc: "countCopies (take k' ?s) (drop k' ?s) = (?n - k') div k'"
    by (simp only: lk' length_drop)
  have "l = k' * (1 + (?n - k') div k')" by (simp only: l_def cc)
  also have "1 + (?n - k') div k' = ?n div k'"
    using k'n k'pos by (simp add: le_div_geq)
  finally have l: "l = k' * (?n div k')" .
  have "?n = k' * (?n div k') + ?n mod k'" by simp
  moreover have "?n mod k' < k'" using k'pos by simp
  ultimately have "?n < l + k'" using l by linarith
  with l3 k'pos have half: "?n < 2 * l" by linarith
  from kn k3 have "0 < ?n" by linarith
  then have "?s \<noteq> []" by (rule length_greater_0_conv [THEN iffD1])
  then obtain c cs where s: "?s = c # cs" by (cases ?s) blast+
  have "loopSearch 3 20 ?s = Some (0, k', l)"
    using at unfolding s by simp
  from phraseLoop_rejects [OF this half] show ?thesis .
qed

text \<open>
  C1 as stated fails: \<^verbatim>\<open>abcabcabcxyzxyzxyzxyz\<close> contains the three-unit phrase
  \<^verbatim>\<open>xyz\<close> four times in a row, 12 of its 21 units, and \<^verbatim>\<open>cleanText\<close> returns
  \<^verbatim>\<open>abcxyz\<close>: \<^verbatim>\<open>hasRepetitionLoop\<close> measures the first match of its pattern only, here
  \<^verbatim>\<open>abcabcabc\<close> (9 units).
\<close>

theorem loop_rejection_counterexample:
  "ex_two_loops = ascii ''abcabcabc'' @ concat (replicate 4 (ascii ''xyz''))
   \<and> length ex_two_loops < 2 * length (concat (replicate 4 (ascii ''xyz'')))
   \<and> cleanText ex_two_loops = ascii ''abcxyz''
   \<and> cleanText ex_two_loops \<noteq> []"
  by (simp add: two_loops_clean) (simp add: two_loops_units ascii_def numeral_eq_Suc)

text \<open>
  C1, amended: \<^verbatim>\<open>cleanText\<close> returns the empty string whenever the first match of
  \<^verbatim>\<open>/(.{3,20})\1{2,}/\<close> is longer than half of the text. That match starts at the leftmost
  position \<open>p\<close> where the pattern matches; it is a phrase of \<open>k\<close> units, \<open>3 \<le> k \<le> 20\<close>,
  without line terminator (the longest the matcher finds there), written \<open>l div k \<ge> 3\<close>
  times in a row, \<open>l\<close> units in all. A text that consists of such a phrase written \<open>r \<ge> 3\<close>
  times and of nothing else is always rejected; in particular \<^verbatim>\<open>cleanText\<close> rejects
  \<open>ex_loop\<close>, the four-unit phrase written four times. Inside a longer text, a repetition
  that is not the first match (a later one, or another grouping at the same place) does
  not by itself reject the text.
\<close>

theorem loop_rejection:
  "(loopSearch 3 20 s = Some (p, k, l) \<longrightarrow>
      3 \<le> k \<and> k \<le> 20 \<and> 3 * k \<le> l \<and> p + l \<le> length s
      \<and> take l (drop p s) = concat (replicate (l div k) (take k (drop p s)))
      \<and> (\<forall>c \<in> set (take k (drop p s)). \<not> isLineTerminator c)
      \<and> (length s < 2 * l \<longrightarrow> cleanText s = []))
   \<and> (3 \<le> length w \<and> length w \<le> 20 \<and> 3 \<le> r \<and> (\<forall>c \<in> set w. \<not> isLineTerminator c) \<longrightarrow>
        cleanText (concat (replicate r w)) = [])
   \<and> cleanText ex_loop = []"
proof -
  have general: "3 \<le> k \<and> k \<le> 20 \<and> 3 * k \<le> l \<and> p + l \<le> length s
      \<and> take l (drop p s) = concat (replicate (l div k) (take k (drop p s)))
      \<and> (\<forall>c \<in> set (take k (drop p s)). \<not> isLineTerminator c)
      \<and> (length s < 2 * l \<longrightarrow> cleanText s = [])"
    if m: "loopSearch 3 20 s = Some (p, k, l)"
  proof -
    from loopSearch_sound [OF m] have p: "p \<le> length s"
      and at: "loopAt 3 20 (drop p s) = Some (k, l)" by blast+
    from loopAt_sound [OF at] have snd: "3 \<le> k" "k \<le> 20" "3 * k \<le> l" "l \<le> length (drop p s)"
      "take l (drop p s) = concat (replicate (l div k) (take k (drop p s)))"
      "\<forall>c \<in> set (take k (drop p s)). \<not> isLineTerminator c"
      by simp_all
    from snd(4) p have "p + l \<le> length s" by simp
    moreover have "length s < 2 * l \<longrightarrow> cleanText s = []"
      using phraseLoop_rejects [OF m] by blast
    ultimately show ?thesis using snd by blast
  qed
  have "cleanText ex_loop = []"
    by (rule phraseLoop_rejects [OF ex_loop_search]) (simp add: ex_loop_def)
  with general whole_loop_rejected [of w r] show ?thesis by blast
qed

theorem loop_rejection_witness:
  "loopSearch 3 20 ex_loop = Some (0, 4, 16) \<and> length ex_loop < 2 * 16
   \<and> take 16 (drop 0 ex_loop) = concat (replicate (16 div 4) (take 4 (drop 0 ex_loop)))
   \<and> cleanText ex_loop = []
   \<and> \<not> isLineTerminator 0x305D \<and> \<not> isLineTerminator 0x3046
   \<and> \<not> isLineTerminator 0x3067 \<and> \<not> isLineTerminator 0x3059
   \<and> cleanText (concat (replicate 4 [0x305D, 0x3046, 0x3067, 0x3059])) = []"
proof -
  have half: "length ex_loop < 2 * 16" by (simp add: ex_loop_def)
  have phrase: "3 \<le> length [0x305D, 0x3046, 0x3067, 0x3059 :: nat]
      \<and> length [0x305D, 0x3046, 0x3067, 0x3059 :: nat] \<le> 20 \<and> (3::nat) \<le> 4
      \<and> (\<forall>c \<in> set [0x305D, 0x3046, 0x3067, 0x3059]. \<not> isLineTerminator c)"
    by (simp add: isLineTerminator_def)
  have units: "\<not> isLineTerminator 0x305D \<and> \<not> isLineTerminator 0x3046
      \<and> \<not> isLineTerminator 0x3067 \<and> \<not> isLineTerminator 0x3059"
    by (simp add: isLineTerminator_def)
  from loop_rejection [of ex_loop 0 4 16 "[0x305D, 0x3046, 0x3067, 0x3059]" 4]
    ex_loop_search half phrase units
  show ?thesis by blast
qed

subsection \<open>Blacklisted sentences\<close>

text \<open>
  C2 as stated fails: the sentence that is kept comes back without its full stop. The
  pieces left after the blacklisted sentence is dropped are the first sentence and the
  empty piece after the last full stop; they are joined with a full stop and the trailing
  full stops are then stripped.
\<close>

theorem blacklist_strip_counterexample:
  "cleanText ex_blacklist \<noteq> ex_meeting @ [0x3002]"
  by (simp add: ex_blacklist_clean)

text \<open>
  C2, amended: for \<open>ex_blacklist\<close> (the sentence \<open>ex_meeting\<close>, a full stop, the
  blacklisted phrase \<open>ex_thanks\<close>, a full stop) both filters drop the sentence with the
  blacklisted phrase and return the other sentence without its full stop, exactly
  \<open>ex_meeting\<close>.
\<close>

theorem blacklist_strip:
  "ex_blacklist = ex_meeting @ [0x3002] @ ex_thanks @ [0x3002]
   \<and> ex_thanks \<in> set blacklistWords
   \<and> cleanText ex_blacklist = ex_meeting
   \<and> filterHallucinations ex_blacklist = ex_meeting"
  by (simp add: ex_blacklist_clean ex_blacklist_groq)
     (simp add: ex_blacklist_def ex_thanks_def blacklistWords_def)

subsection \<open>The length floor\<close>

text \<open>
  C3: for every text, when what is left after all stages and the final clean-up is shorter
  than three units, \<^verbatim>\<open>cleanText\<close> returns the empty string; so a result of either filter
  is empty or has at least three units. \<open>ex_short\<close> (two units) is rejected and
  \<open>ex_kaigichu\<close> (four units) is returned as it is, by both filters.
\<close>

theorem length_floor:
  "(length (finalCleanup (wordLoopSquash (loopSquash 2 15
       (foldl dropSentences (collapseNoise s) blacklistWords)))) < 3 \<longrightarrow> cleanText s = [])
   \<and> (cleanText s = [] \<or> 3 \<le> length (cleanText s))
   \<and> (filterHallucinations s = [] \<or> 3 \<le> length (filterHallucinations s))
   \<and> cleanText ex_short = [] \<and> filterHallucinations ex_short = []
   \<and> cleanText ex_kaigichu = ex_kaigichu \<and> filterHallucinations ex_kaigichu = ex_kaigichu"
proof -
  have a: "length (finalCleanup (wordLoopSquash (loopSquash 2 15
       (foldl dropSentences (collapseNoise s) blacklistWords)))) < 3 \<longrightarrow> cleanText s = []" for s
    by (simp add: cleanText_def Let_def)
  have b: "cleanText s = [] \<or> 3 \<le> length (cleanText s)"
    by (simp add: cleanText_def Let_def)
  have c: "filterHallucinations s = [] \<or> 3 \<le> length (filterHallucinations s)"
    by (auto simp: filterHallucinations_def Let_def split: option.splits)
  from a b c ex_short_clean ex_short_groq ex_kaigichu_clean ex_kaigichu_groq
  show ?thesis by blast
qed

theorem length_floor_witness:
  "length (finalCleanup (wordLoopSquash (loopSquash 2 15
       (foldl dropSentences (collapseNoise ex_short) blacklistWords)))) < 3
   \<and> cleanText ex_short = []"
proof -
  have short: "length (finalCleanup (wordLoopSquash (loopSquash 2 15
       (foldl dropSentences (collapseNoise ex_short) blacklistWords)))) < 3"
    unfolding short_pipeline by (simp add: ex_short_def)
  from length_floor [of ex_short] short show ?thesis by blast
qed

section \<open>Properties of the handlers\<close>

subsection \<open>An empty filter result creates no record\<close>

lemma rejected_result:
  "transcriptions (updateStatus Ready (showToast Warning (s\<lparr>isProcessing := False\<rparr>))) = transcriptions s
   \<and> storedTranscriptions (updateStatus Ready (showToast Warning (s\<lparr>isProcessing := False\<rparr>)))
       = storedTranscriptions s
   \<and> currentTranscriptionId (updateStatus Ready (showToast Warning (s\<lparr>isProcessing := False\<rparr>)))
       = currentTranscriptionId s
   \<and> statusShown (updateStatus Ready (showToast Warning (s\<lparr>isProcessing := False\<rparr>))) = Ready
   \<and> \<not> isProcessing (updateStatus Ready (showToast Warning (s\<lparr>isProcessing := False\<rparr>)))
   \<and> toasts (updateStatus Ready (showToast Warning (s\<lparr>isProcessing := False\<rparr>))) = toasts s @ [Warning]"
  by (simp add: updateStatus_def showToast_def)

text \<open>
  C8: when the filter returns the empty string for the (trimmed) transcript, the handler
  of either application leaves the transcription list and the stored list as they were,
  opens no record, shows a warning (not an error), clears \<^verbatim>\<open>isProcessing\<close> and sets the
  status to "ready".
\<close>

theorem empty_result_creates_no_record:
  "(cleanText (trim t) = [] \<longrightarrow>
      transcriptions (handleTranscriptionResult canon now (Some t) s) = transcriptions s
      \<and> storedTranscriptions (handleTranscriptionResult canon now (Some t) s) = storedTranscriptions s
      \<and> currentTranscriptionId (handleTranscriptionResult canon now (Some t) s) = currentTranscriptionId s
      \<and> statusShown (handleTranscriptionResult canon now (Some t) s) = Ready
      \<and> \<not> isProcessing (handleTranscriptionResult canon now (Some t) s)
      \<and> toasts (handleTranscriptionResult canon now (Some t) s) = toasts s @ [Warning])
   \<and> (filterHallucinations (trim t) = [] \<longrightarrow>
      transcriptions (handleTranscriptionResult_groq canon now (Some t) s) = transcriptions s
      \<and> storedTranscriptions (handleTranscriptionResult_groq canon now (Some t) s) = storedTranscriptions s
      \<and> currentTranscriptionId (handleTranscriptionResult_groq canon now (Some t) s) = currentTranscriptionId s
      \<and> statusShown (handleTranscriptionResult_groq canon now (Some t) s) = Ready
      \<and> \<not> isProcessing (handleTranscriptionResult_groq canon now (Some t) s)
      \<and> toasts (handleTranscriptionResult_groq canon now (Some t) s) = toasts s @ [Warning])"
proof -
  have l: "handleTranscriptionResult canon now (Some t) s
             = updateStatus Ready (showToast Warning (s\<lparr>isProcessing := False\<rparr>))"
    if "cleanText (trim t) = []"
    using that by (simp add: handleTranscriptionResult_def Let_def)
  have g: "handleTranscriptionResult_groq canon now (Some t) s
             = updateStatus Ready (showToast Warning (s\<lparr>isProcessing := False\<rparr>))"
    if "filterHallucinations (trim t) = []"
    using that by (simp add: handleTranscriptionResult_groq_def Let_def)
  from l g rejected_result [of s] show ?thesis by presburger
qed

lemma ex_short_trim: "trim ex_short = ex_short"
  by (simp add: ex_short_def trim_def class_defs)

theorem empty_result_creates_no_record_witness:
  "cleanText (trim ex_short) = [] \<and> filterHallucinations (trim ex_short) = []
   \<and> transcriptions (handleTranscriptionResult canonicalize ex_now (Some ex_short)
        (initialState\<lparr>isProcessing := True, statusShown := Processing\<rparr>)) = []
   \<and> storedTranscriptions (handleTranscriptionResult_groq canonicalize ex_now (Some ex_short)
        (initialState\<lparr>isProcessing := True, statusShown := Processing\<rparr>)) = Missing
   \<and> statusShown (handleTranscriptionResult canonicalize ex_now (Some ex_short)
        (initialState\<lparr>isProcessing := True, statusShown := Processing\<rparr>)) = Ready"
proof -
  have c: "cleanText (trim ex_short) = []"
    by (simp add: ex_short_trim ex_short_clean)
  have f: "filterHallucinations (trim ex_short) = []"
    by (simp add: ex_short_trim ex_short_groq)
  from empty_result_creates_no_record [of ex_short canonicalize ex_now
      "initialState\<lparr>isProcessing := True, statusShown := Processing\<rparr>"] c f
  show ?thesis by (simp add: initialState_def)
qed

text \<open>A text that survives the filter is stored once, as the newest record.\<close>

lemma surviving_result_prepends:
  assumes "cleanText (trim t) \<noteq> []"
  shows "transcriptions (handleTranscriptionResult canon now (Some t) s)
           = createTranscription now (processKeywords canon (stateKeywords s) (cleanText (trim t)))
               # transcriptions s"
proof -
  from assms have "trim t \<noteq> []" by (auto simp: cleanText_def)
  with assms show ?thesis
    by (simp add: handleTranscriptionResult_def storeResult_def Let_def updateStatus_def
        showToast_def navigateToDetail_def saveTranscriptions_def split: option.splits)
qed

subsection \<open>Keyword correction as an overlay\<close>

lemma getSubstitution_literal:
  "0x0024 \<notin> set r \<Longrightarrow> getSubstitution matched str position r = r"
  by (induction matched str position r rule: getSubstitution.induct) auto

lemma ciStartsWith_length:
  "ciStartsWith canon s w \<Longrightarrow> length w \<le> length s"
proof -
  assume "ciStartsWith canon s w"
  then have "length (map canon (take (length w) s)) = length (map canon w)"
    by (simp only: ciStartsWith_def)
  then show ?thesis by simp
qed

lemma ciStartsWith_skeleton:
  "map canon s = map canon s' \<Longrightarrow> ciStartsWith canon s w = ciStartsWith canon s' w"
  by (simp add: ciStartsWith_def take_map [symmetric])

lemma length_mask: "w \<noteq> [] \<Longrightarrow> length (mask canon w s) = length s"
proof (induction canon w s rule: mask.induct)
  case (1 canon w)
  show ?case by simp
next
  case (2 canon w c cs)
  show ?case
  proof (cases "ciStartsWith canon (c # cs) w")
    case True
    from ciStartsWith_length [OF True] have le: "length w \<le> Suc (length cs)" by simp
    from "2.prems" obtain a ws where w: "w = a # ws" by (cases w) auto
    from "2.IH"(1) [OF True "2.prems"]
    have "length (mask canon w (drop (length w - 1) cs)) = length cs - (length w - 1)"
      by simp
    with le w True show ?thesis by simp
  next
    case False
    then show ?thesis using "2.IH"(2) "2.prems" by simp
  qed
qed

lemma mask_skeleton:
  "map canon s = map canon s' \<Longrightarrow> mask canon w s = mask canon w s'"
proof (induction canon w s arbitrary: s' rule: mask.induct)
  case (1 canon w)
  then show ?case by simp
next
  case (2 canon w c cs)
  from "2.prems" obtain c' cs' where s': "s' = c' # cs'" and cs: "map canon cs = map canon cs'"
    by (cases s') auto
  have st: "ciStartsWith canon (c # cs) w = ciStartsWith canon (c' # cs') w"
    using "2.prems" s' by (intro ciStartsWith_skeleton) simp
  have dr: "map canon (drop (length w - 1) cs) = map canon (drop (length w - 1) cs')"
    using cs by (simp add: drop_map [symmetric])
  show ?case
  proof (cases "ciStartsWith canon (c # cs) w")
    case True
    with "2.IH"(1) [OF True dr] st s' show ?thesis by simp
  next
    case False
    with "2.IH"(2) [OF False cs] st s' show ?thesis by simp
  qed
qed

lemma overlay_Nil [simp]: "overlay [] s = []"
  by (simp add: overlay_def)

lemma overlay_Cons [simp]:
  "overlay (a # m) (x # s) = (case a of None \<Rightarrow> x | Some c \<Rightarrow> c) # overlay m s"
  by (simp add: overlay_def)

lemma overlay_append:
  "length m1 \<le> length s \<Longrightarrow>
     overlay (m1 @ m2) s = overlay m1 (take (length m1) s) @ overlay m2 (drop (length m1) s)"
proof (induction m1 arbitrary: s)
  case Nil
  then show ?case by simp
next
  case (Cons a m1)
  then obtain x xs where "s = x # xs" by (cases s) auto
  with Cons show ?case by simp
qed

lemma overlay_Some: "length s = length w \<Longrightarrow> overlay (map Some w) s = w"
proof (induction w arbitrary: s)
  case Nil
  then show ?case by simp
next
  case (Cons a w)
  then obtain x xs where "s = x # xs" by (cases s) auto
  with Cons show ?case by simp
qed

lemma replaceFrom_overlay:
  assumes "0x0024 \<notin> set w" and "w \<noteq> []"
  shows "replaceFrom canon w str position s = overlay (mask canon w s) s"
  using assms
proof (induction canon w str position s rule: replaceFrom.induct)
  case (1 canon w str position)
  show ?case by simp
next
  case (2 canon w str position c cs)
  show ?case
  proof (cases "ciStartsWith canon (c # cs) w")
    case True
    from ciStartsWith_length [OF True] have len: "length w \<le> length (c # cs)" .
    from "2.prems" have d: "drop (length w - 1) cs = drop (length w) (c # cs)"
      by (intro drop_pred_Cons)
    have "overlay (map Some w @ mask canon w (drop (length w) (c # cs))) (c # cs)
            = overlay (map Some w) (take (length w) (c # cs))
                @ overlay (mask canon w (drop (length w) (c # cs))) (drop (length w) (c # cs))"
      using overlay_append [of "map Some w" "c # cs"] len by simp
    also have "overlay (map Some w) (take (length w) (c # cs)) = w"
      using len by (intro overlay_Some) simp
    finally have "overlay (mask canon w (c # cs)) (c # cs)
            = w @ overlay (mask canon w (drop (length w) (c # cs))) (drop (length w) (c # cs))"
      using True d by simp
    moreover have "replaceFrom canon w str position (c # cs)
            = w @ replaceFrom canon w str (position + length w) (drop (length w) (c # cs))"
      using True d "2.prems" by (simp add: getSubstitution_literal)
    moreover have "replaceFrom canon w str (position + length w) (drop (length w) (c # cs))
            = overlay (mask canon w (drop (length w) (c # cs))) (drop (length w) (c # cs))"
      using "2.IH"(1) [OF True "2.prems"] d by simp
    ultimately show ?thesis by simp
  next
    case False
    with "2.IH"(2) [OF False "2.prems"] show ?thesis by simp
  qed
qed

lemma replaceKeyword_overlay:
  assumes "0x0024 \<notin> set w"
  shows "replaceKeyword canon w s = overlay (keywordMask canon w s) s"
proof (cases "w = []")
  case True
  have "overlay (replicate (length s) None) s = s"
    by (induction s) simp_all
  with True show ?thesis by (simp add: replaceKeyword_def keywordMask_def)
next
  case False
  with assms show ?thesis
    by (simp add: replaceKeyword_def keywordMask_def replaceFrom_overlay)
qed

lemma length_keywordMask: "length (keywordMask canon w s) = length s"
  by (simp add: keywordMask_def length_mask)

lemma keywordMask_skeleton:
  assumes "map canon s = map canon s'"
  shows "keywordMask canon w s = keywordMask canon w s'"
proof -
  from assms have "length (map canon s) = length (map canon s')" by (rule arg_cong)
  then have "length s = length s'" by simp
  with mask_skeleton [OF assms] show ?thesis by (simp add: keywordMask_def)
qed

lemma overlay_none: "overlay (replicate (length s) None) s = s"
  by (induction s) simp_all

lemma overlay_merge:
  "length m2 = length s \<Longrightarrow> length m1 = length s \<Longrightarrow>
     overlay m2 (overlay m1 s) = overlay (mergeMask m2 m1) s"
proof (induction s arbitrary: m1 m2)
  case Nil
  then show ?case by (simp add: mergeMask_def)
next
  case (Cons x s)
  from Cons.prems obtain a m1' b m2' where m: "m1 = a # m1'" "m2 = b # m2'"
    by (cases m1; cases m2) auto
  with Cons.prems have "length m2' = length s" "length m1' = length s" by simp_all
  from Cons.IH [OF this] have "overlay m2' (overlay m1' s) = overlay (mergeMask m2' m1') s" .
  with m show ?case by (cases b) (simp_all add: mergeMask_def overlay_def)
qed

lemma overlay_idem: "length m = length s \<Longrightarrow> overlay m (overlay m s) = overlay m s"
proof (induction s arbitrary: m)
  case Nil
  then show ?case by simp
next
  case (Cons x s)
  then obtain a m' where "m = a # m'" by (cases m) auto
  with Cons show ?case by (cases a) simp_all
qed

lemma length_overlay: "length m = length s \<Longrightarrow> length (overlay m s) = length s"
  by (simp add: overlay_def)

lemma mask_keeps_skeleton:
  "w \<noteq> [] \<Longrightarrow> map canon (overlay (mask canon w s) s) = map canon s"
proof (induction canon w s rule: mask.induct)
  case (1 canon w)
  show ?case by simp
next
  case (2 canon w c cs)
  show ?case
  proof (cases "ciStartsWith canon (c # cs) w")
    case True
    from ciStartsWith_length [OF True] have len: "length w \<le> length (c # cs)" .
    from "2.prems" have d: "drop (length w - 1) cs = drop (length w) (c # cs)"
      by (intro drop_pred_Cons)
    have "overlay (map Some w @ mask canon w (drop (length w) (c # cs))) (c # cs)
            = overlay (map Some w) (take (length w) (c # cs))
                @ overlay (mask canon w (drop (length w) (c # cs))) (drop (length w) (c # cs))"
      using overlay_append [of "map Some w" "c # cs"] len by simp
    also have "overlay (map Some w) (take (length w) (c # cs)) = w"
      using len by (intro overlay_Some) simp
    finally have ov: "overlay (mask canon w (c # cs)) (c # cs)
            = w @ overlay (mask canon w (drop (length w) (c # cs))) (drop (length w) (c # cs))"
      using True d by simp
    have ih: "map canon (overlay (mask canon w (drop (length w) (c # cs))) (drop (length w) (c # cs)))
            = map canon (drop (length w) (c # cs))"
      using "2.IH"(1) [OF True "2.prems"] d by simp
    from True have "map canon w = map canon (take (length w) (c # cs))"
      by (simp only: ciStartsWith_def)
    with ov ih have "map canon (overlay (mask canon w (c # cs)) (c # cs))
            = map canon (take (length w) (c # cs)) @ map canon (drop (length w) (c # cs))"
      by simp
    also have "\<dots> = map canon (c # cs)"
      by (simp only: map_append [symmetric] append_take_drop_id)
    finally show ?thesis .
  next
    case False
    with "2.IH"(2) [OF False "2.prems"] show ?thesis by simp
  qed
qed

lemma keywordMask_keeps_skeleton:
  "map canon (overlay (keywordMask canon w s) s) = map canon s"
  by (simp add: keywordMask_def overlay_none mask_keeps_skeleton)

lemma fold_overlay:
  assumes "\<forall>k \<in> set ks. 0x0024 \<notin> set (word k)"
    and "length m = length s" and "map canon (overlay m s) = map canon s"
  shows "processKeywords canon ks (overlay m s)
           = overlay (foldl (\<lambda>m k. mergeMask (keywordMask canon (word k) s) m) m ks) s
         \<and> map canon (processKeywords canon ks (overlay m s)) = map canon s
         \<and> length (foldl (\<lambda>m k. mergeMask (keywordMask canon (word k) s) m) m ks) = length s"
  using assms
proof (induction ks arbitrary: m)
  case Nil
  then show ?case by (simp add: processKeywords_def)
next
  case (Cons k ks)
  let ?K = "keywordMask canon (word k) s"
  let ?m' = "mergeMask ?K m"
  from Cons.prems(1) have nd: "0x0024 \<notin> set (word k)" and rest: "\<forall>k \<in> set ks. 0x0024 \<notin> set (word k)"
    by simp_all
  have lm': "length ?m' = length s"
    using Cons.prems(2) by (simp add: mergeMask_def length_keywordMask)
  have "replaceKeyword canon (word k) (overlay m s)
          = overlay (keywordMask canon (word k) (overlay m s)) (overlay m s)"
    by (rule replaceKeyword_overlay [OF nd])
  also have "keywordMask canon (word k) (overlay m s) = ?K"
    by (rule keywordMask_skeleton [OF Cons.prems(3)])
  also have "overlay ?K (overlay m s) = overlay ?m' s"
    using Cons.prems(2) by (intro overlay_merge) (simp_all add: length_keywordMask)
  finally have step: "replaceKeyword canon (word k) (overlay m s) = overlay ?m' s" .
  have "map canon (overlay ?m' s) = map canon (overlay (keywordMask canon (word k) (overlay m s)) (overlay m s))"
    using step replaceKeyword_overlay [OF nd, of canon "overlay m s"] by simp
  also have "\<dots> = map canon (overlay m s)"
    by (rule keywordMask_keeps_skeleton)
  finally have sk': "map canon (overlay ?m' s) = map canon s"
    using Cons.prems(3) by simp
  have pk: "processKeywords canon (k # ks) (overlay m s) = processKeywords canon ks (overlay ?m' s)"
    using step by (simp add: processKeywords_def)
  have fm: "foldl (\<lambda>m k. mergeMask (keywordMask canon (word k) s) m) m (k # ks)
              = foldl (\<lambda>m k. mergeMask (keywordMask canon (word k) s) m) ?m' ks"
    by simp
  from Cons.IH [OF rest lm' sk'] show ?case unfolding pk fm .
qed

lemma processKeywords_overlay:
  assumes "\<forall>k \<in> set ks. 0x0024 \<notin> set (word k)"
  shows "processKeywords canon ks s = overlay (keywordsMask canon ks s) s
         \<and> map canon (processKeywords canon ks s) = map canon s
         \<and> length (keywordsMask canon ks s) = length s"
proof -
  have "length (replicate (length s) (None :: nat option)) = length s" by simp
  moreover have "map canon (overlay (replicate (length s) None) s) = map canon s"
    by (simp only: overlay_none)
  ultimately have "processKeywords canon ks (overlay (replicate (length s) None) s)
           = overlay (foldl (\<lambda>m k. mergeMask (keywordMask canon (word k) s) m)
                        (replicate (length s) None) ks) s
         \<and> map canon (processKeywords canon ks (overlay (replicate (length s) None) s)) = map canon s
         \<and> length (foldl (\<lambda>m k. mergeMask (keywordMask canon (word k) s) m)
                     (replicate (length s) None) ks) = length s"
    by (rule fold_overlay [OF assms])
  then show ?thesis unfolding overlay_none keywordsMask_def .
qed

lemma keywordsMask_skeleton:
  assumes "map canon s = map canon s'"
  shows "keywordsMask canon ks s = keywordsMask canon ks s'"
proof -
  from assms have "length (map canon s) = length (map canon s')" by (rule arg_cong)
  then have len: "length s = length s'" by simp
  have "keywordMask canon w s = keywordMask canon w s'" for w
    by (rule keywordMask_skeleton [OF assms])
  with len show ?thesis by (simp add: keywordsMask_def)
qed

text \<open>
  With no dollar sign in any keyword, correcting twice is correcting once, for every text
  and every canonicalisation table, whether or not keywords overlap.
\<close>

lemma processKeywords_idempotent:
  assumes "\<forall>k \<in> set ks. 0x0024 \<notin> set (word k)"
  shows "processKeywords canon ks (processKeywords canon ks s) = processKeywords canon ks s"
proof -
  let ?t = "processKeywords canon ks s"
  note first = processKeywords_overlay [OF assms, of canon s]
  from first have t: "?t = overlay (keywordsMask canon ks s) s" by (rule conjunct1)
  from first have sk: "map canon ?t = map canon s" by blast
  from first have len: "length (keywordsMask canon ks s) = length s" by blast
  from processKeywords_overlay [OF assms, of canon ?t]
  have "processKeywords canon ks ?t = overlay (keywordsMask canon ks ?t) ?t" by (rule conjunct1)
  also have "keywordsMask canon ks ?t = keywordsMask canon ks s"
    by (rule keywordsMask_skeleton [OF sk])
  also have "overlay (keywordsMask canon ks s) ?t = ?t"
    using overlay_idem [OF len] t by simp
  finally show ?thesis .
qed

subsection \<open>Keyword correction applied twice\<close>

text \<open>
  C9 fails in the code for a keyword that contains a replacement pattern: the keyword is
  escaped where it is the regular expression, and passed unescaped where it is the
  replacement. With the single keyword \<^verbatim>\<open>$'\<close> and the text \<^verbatim>\<open>$'$'\<close> (two occurrences, not
  overlapping) the first application returns \<^verbatim>\<open>$'\<close> (the first match is replaced by what
  follows it, the second by nothing) and the second application returns the empty text.
  (Where no keyword contains a dollar sign the property holds, lemma
  \<open>processKeywords_idempotent\<close>.)
\<close>

theorem processKeywords_twice:
  "processKeywords canonicalize [ex_dollar] [0x0024, 0x0027, 0x0024, 0x0027] = [0x0024, 0x0027]
   \<and> processKeywords canonicalize [ex_dollar]
        (processKeywords canonicalize [ex_dollar] [0x0024, 0x0027, 0x0024, 0x0027]) = []"
proof -
  have one: "processKeywords canonicalize [ex_dollar] [0x0024, 0x0027, 0x0024, 0x0027] = [0x0024, 0x0027]"
    by (simp add: processKeywords_def replaceKeyword_def ciStartsWith_def ex_dollar_def)
  have two: "processKeywords canonicalize [ex_dollar] [0x0024, 0x0027] = []"
    by (simp add: processKeywords_def replaceKeyword_def ciStartsWith_def ex_dollar_def)
  from one two show ?thesis by simp
qed

subsection \<open>Uniqueness of the keyword set\<close>

text \<open>
  src/main.js and the local-worker application: \<^verbatim>\<open>addKeyword\<close>, \<^verbatim>\<open>deleteKeyword\<close> and
  \<^verbatim>\<open>loadKeywords\<close> (from a stored list that is itself unique) keep the keyword set unique
  up to \<^verbatim>\<open>toLowerCase\<close>, and adding a word equal to a registered one up to
  \<^verbatim>\<open>toLowerCase\<close> leaves the set as it was.
\<close>

lemma addKeyword_unique:
  assumes "uniqueKeywords lower (stateKeywords s)"
  shows "uniqueKeywords lower (stateKeywords (addKeyword lower now s))"
proof -
  have "lower (trim (keywordInput s)) \<notin> (\<lambda>k. lower (word k)) ` set (stateKeywords s)"
    if "\<not> list_ex (\<lambda>k. lower (word k) = lower (trim (keywordInput s))) (stateKeywords s)"
    using that by (auto simp: list_ex_iff)
  with assms show ?thesis
    by (auto simp: addKeyword_def Let_def uniqueKeywords_def showToast_def)
qed

lemma addKeyword_duplicate:
  assumes "k \<in> set (stateKeywords s)" and "lower (word k) = lower (trim (keywordInput s))"
  shows "stateKeywords (addKeyword lower now s) = stateKeywords s
         \<and> storedKeywords (addKeyword lower now s) = storedKeywords s"
proof -
  from assms have "list_ex (\<lambda>k. lower (word k) = lower (trim (keywordInput s))) (stateKeywords s)"
    by (auto simp: list_ex_iff)
  then show ?thesis by (simp add: addKeyword_def Let_def showToast_def)
qed

lemma deleteKeyword_unique:
  assumes "uniqueKeywords lower (stateKeywords s)"
  shows "uniqueKeywords lower (stateKeywords (deleteKeyword ident s))"
proof -
  have "distinct (map f (filter P xs))" if "distinct (map f xs)" for f :: "keyword \<Rightarrow> jsstring" and P xs
    using that by (induction xs) auto
  with assms show ?thesis by (simp add: deleteKeyword_def Let_def uniqueKeywords_def)
qed

lemma loadKeywords_unique:
  assumes "\<And>ks. storedKeywords s = Stored ks \<Longrightarrow> uniqueKeywords lower ks"
  shows "uniqueKeywords lower (stateKeywords (loadKeywords s))"
  using assms by (cases "storedKeywords s") (simp_all add: loadKeywords_def uniqueKeywords_def)

text \<open>
  C10 fails in the Groq application of src/api/transcribe.js: its \<^verbatim>\<open>addKeyword\<close> compares
  the words with \<^verbatim>\<open>===\<close>. With \<^verbatim>\<open>ABC\<close> registered, adding \<^verbatim>\<open>abc\<close> appends a second entry,
  and the set is no longer unique up to case.
\<close>

theorem addKeyword_groq_duplicate:
  "uniqueKeywords asciiLower [\<lparr>kid = 1, word = ascii ''ABC''\<rparr>]
   \<and> stateKeywords (addKeyword_groq 2
        (initialState\<lparr>stateKeywords := [\<lparr>kid = 1, word = ascii ''ABC''\<rparr>],
                       keywordInput := ascii ''abc''\<rparr>))
       = [\<lparr>kid = 1, word = ascii ''ABC''\<rparr>, \<lparr>kid = 2, word = ascii ''abc''\<rparr>]
   \<and> \<not> uniqueKeywords asciiLower (stateKeywords (addKeyword_groq 2
        (initialState\<lparr>stateKeywords := [\<lparr>kid = 1, word = ascii ''ABC''\<rparr>],
                       keywordInput := ascii ''abc''\<rparr>)))
   \<and> stateKeywords (addKeyword asciiLower 2
        (initialState\<lparr>stateKeywords := [\<lparr>kid = 1, word = ascii ''ABC''\<rparr>],
                       keywordInput := ascii ''abc''\<rparr>))
       = [\<lparr>kid = 1, word = ascii ''ABC''\<rparr>]"
  by (simp add: addKeyword_groq_def addKeyword_def uniqueKeywords_def asciiLower_def
      initialState_def showToast_def trim_def ascii_def class_defs Let_def)

end
